theory Spec2Isabelle
  imports Main "HOL-Library.Word" "HOL-Library.Product_Lexorder"
begin

section \<open>Data model of the transfers consumer\<close>

text \<open>
  The embedding follows \<^verbatim>\<open>src/lib/Transfers/TransfersConsumer.cpp\<close>.
  Hashes, keys, derivations and key images are opaque byte strings in the source; they are
  natural numbers here, so that only equality is used on them. Fixed-width integers are
  words. A \<^verbatim>\<open>size_t\<close> counter that only counts elements of a container held in
  memory (the running key index, an output position) is a natural number.
\<close>

type_synonym u8 = "8 word"
type_synonym u32 = "32 word"
type_synonym u64 = "64 word"

type_synonym Hash = nat
type_synonym PublicKey = nat
type_synonym SecretKey = nat
type_synonym KeyDerivation = nat
type_synonym KeyImage = nat

text \<open>\<^verbatim>\<open>std::error_code\<close>: the test \<^verbatim>\<open>if (ec)\<close> is \<open>ec \<noteq> success\<close>.\<close>

datatype error_code = success | argument_out_of_domain | operation_canceled | node_error nat

text \<open>
  What ends the process instead of returning: a failed \<^verbatim>\<open>assert\<close> (when assertions are
  compiled in) and a read of a vector past its end.
\<close>

datatype fault = AssertionFailed | OutOfBoundsRead

datatype OutputType = Invalid | Key | Multisignature

datatype TransactionOutput =
    KeyOutput u64 PublicKey
  | MultisignatureOutput u64 "PublicKey list" u8
  | InvalidOutput

record TransactionReader =
  getTransactionPublicKey :: PublicKey
  getTransactionHash :: Hash
  transactionOutputs :: "TransactionOutput list"

definition getOutputCount :: "TransactionReader \<Rightarrow> nat" where
  "getOutputCount tx = length (transactionOutputs tx)"

text \<open>
  Every call of \<^verbatim>\<open>getOutput\<close> and \<^verbatim>\<open>getOutputType\<close> in the source is made with an
  index below \<^verbatim>\<open>getOutputCount()\<close>; outside that range the reader reports no
  addressable output.
\<close>

definition getOutput :: "TransactionReader \<Rightarrow> nat \<Rightarrow> TransactionOutput" where
  "getOutput tx i = (if i < getOutputCount tx then transactionOutputs tx ! i else InvalidOutput)"

definition getOutputType :: "TransactionReader \<Rightarrow> nat \<Rightarrow> OutputType" where
  "getOutputType tx i =
     (case getOutput tx i of
        KeyOutput a k \<Rightarrow> Key
      | MultisignatureOutput a ks r \<Rightarrow> Multisignature
      | InvalidOutput \<Rightarrow> Invalid)"

record AccountPublicAddress =
  spendPublicKey :: PublicKey
  viewPublicKey :: PublicKey

record AccountKeys =
  address :: AccountPublicAddress
  spendSecretKey :: SecretKey
  viewSecretKey :: SecretKey

record SynchronizationStart =
  ss_timestamp :: u64
  ss_height :: u64

record AccountSubscription =
  keys :: AccountKeys
  syncStart :: SynchronizationStart

record TransactionBlockInfo =
  height :: u32
  timestamp :: u64
  transactionIndex :: u32

text \<open>
  \<^verbatim>\<open>TransactionOutputInformationIn\<close>: the common fields, and either the output key with
  its key image (Key) or the number of required signatures (Multisignature).
\<close>

datatype OutputDetail = KeyDetail PublicKey KeyImage | MultisignatureDetail u32

record TransactionOutputInformationIn =
  outputType :: OutputType
  transactionPublicKey :: PublicKey
  outputInTransaction :: u32
  globalOutputIndex :: u32
  amount :: u64
  detail :: OutputDetail

record TransactionInformation =
  blockHeight :: u32

text \<open>
  A subscription is owned by the consumer; its container is outside the modelled file.
  The calls the consumer makes on a subscription are recorded in its history, in order.
\<close>

datatype sub_event =
    AddTransaction TransactionBlockInfo TransactionReader "TransactionOutputInformationIn list"
  | MarkTransactionConfirmed TransactionBlockInfo Hash "u32 list"
  | OnError error_code u32
  | AdvanceHeight u32

record Subscription = AccountSubscription +
  history :: "sub_event list"

text \<open>The process-wide registry of seen transaction hashes and output keys.\<close>

record Registry =
  transactions_hash_seen :: "Hash set"
  public_keys_seen :: "PublicKey set"

datatype log_event =
    DuplicateOutputKey Hash
  | SameOutputKeyTwice Hash
  | DuplicateMultisignatureKey Hash
  | SameMultisignatureKeyTwice Hash

text \<open>
  The collaborators that the file calls and does not define are parameters of the model:
  the elliptic-curve primitives, the node's global-index lookup, the constants of the
  wallet headers, the platform's reported parallelism, whether assertions are compiled
  out, and the answers of a subscription's container (which may depend on everything the
  subscription has been told so far).
\<close>

record Env =
  generate_key_derivation :: "PublicKey \<Rightarrow> SecretKey \<Rightarrow> KeyDerivation option"
  underive_public_key :: "KeyDerivation \<Rightarrow> nat \<Rightarrow> PublicKey \<Rightarrow> PublicKey"
  generate_key_image_helper :: "AccountKeys \<Rightarrow> PublicKey \<Rightarrow> nat \<Rightarrow> PublicKey \<times> KeyImage"
  getTransactionOutsGlobalIndices :: "Hash \<Rightarrow> error_code \<times> u32 list"
  WALLET_UNCONFIRMED_TRANSACTION_HEIGHT :: u32
  UNCONFIRMED_TRANSACTION_GLOBAL_OUTPUT_INDEX :: u32
  NULL_PUBLIC_KEY :: PublicKey
  hardware_concurrency :: u32
  NDEBUG :: bool
  getTransactionInformation :: "Subscription \<Rightarrow> Hash \<Rightarrow> TransactionInformation option"
  addTransaction_recorded ::
    "Subscription \<Rightarrow> TransactionBlockInfo \<Rightarrow> TransactionReader \<Rightarrow>
       TransactionOutputInformationIn list \<Rightarrow> bool"

section \<open>The seen-keys registry and the transfer builder\<close>

definition addPublicKeysSeen :: "Hash \<Rightarrow> PublicKey \<Rightarrow> Registry \<Rightarrow> Registry" where
  "addPublicKeysSeen transactionHash outputKey reg =
     reg\<lparr>transactions_hash_seen := insert transactionHash (transactions_hash_seen reg),
         public_keys_seen := insert outputKey (public_keys_seen reg)\<rparr>"

text \<open>
  The state that \<^verbatim>\<open>createTransfers\<close> changes while it walks the owned indices: the
  caller's \<^verbatim>\<open>transfers\<close> vector, the local \<^verbatim>\<open>temp_keys\<close> and the logger.
\<close>

record BuildState =
  transfers :: "TransactionOutputInformationIn list"
  temp_keys :: "PublicKey list"
  logged :: "log_event list"

text \<open>
  One pass of a loop body either falls through to the next element, or leaves the function
  with \<^verbatim>\<open>return\<close>, or ends the process.
\<close>

datatype 'a flow = Continue 'a | Return error_code 'a | Stop fault

text \<open>
  The duplicate-key test of one output key (lines 496-514 for a Key output, 523-541 for
  each key of a Multisignature output; the two differ in the logged message only).
\<close>

definition stage_key ::
  "Registry \<Rightarrow> Hash \<Rightarrow> log_event \<Rightarrow> log_event \<Rightarrow> PublicKey \<Rightarrow> BuildState \<Rightarrow> BuildState flow" where
  "stage_key reg txHash duplicate twice k st =
     (if txHash \<notin> transactions_hash_seen reg then
        (if k \<in> public_keys_seen reg then
           Return success (st\<lparr>logged := logged st @ [duplicate]\<rparr>)
         else if k \<in> set (temp_keys st) then
           Return success (st\<lparr>logged := logged st @ [twice]\<rparr>)
         else Continue (st\<lparr>temp_keys := temp_keys st @ [k]\<rparr>))
      else Continue st)"

fun stage_multisignature_keys ::
  "Registry \<Rightarrow> Hash \<Rightarrow> PublicKey list \<Rightarrow> BuildState \<Rightarrow> BuildState flow" where
  "stage_multisignature_keys reg txHash [] st = Continue st"
| "stage_multisignature_keys reg txHash (k # ks) st =
     (case stage_key reg txHash (DuplicateMultisignatureKey txHash)
             (SameMultisignatureKeyTwice txHash) k st of
        Continue st' \<Rightarrow> stage_multisignature_keys reg txHash ks st'
      | Return ec st' \<Rightarrow> Return ec st'
      | Stop f \<Rightarrow> Stop f)"

text \<open>
  The value of \<^verbatim>\<open>info.globalOutputIndex\<close> (lines 477-478). \<^verbatim>\<open>globalIdxs[idx]\<close> is
  evaluated for a confirmed transaction only; past the end of the vector it is an
  out-of-bounds read.
\<close>

definition global_index_of :: "Env \<Rightarrow> TransactionBlockInfo \<Rightarrow> u32 list \<Rightarrow> u32 \<Rightarrow> u32 option" where
  "global_index_of env blockInfo globalIdxs idx =
     (if height blockInfo = WALLET_UNCONFIRMED_TRANSACTION_HEIGHT env
      then Some (UNCONFIRMED_TRANSACTION_GLOBAL_OUTPUT_INDEX env)
      else if unat idx < length globalIdxs then Some (globalIdxs ! unat idx)
      else None)"

text \<open>The body of the loop over the owned indices (lines 460-548).\<close>

definition createTransfers_body ::
  "Env \<Rightarrow> Registry \<Rightarrow> AccountKeys \<Rightarrow> TransactionBlockInfo \<Rightarrow> TransactionReader \<Rightarrow>
     u32 list \<Rightarrow> u32 \<Rightarrow> BuildState \<Rightarrow> BuildState flow" where
  "createTransfers_body env reg account blockInfo tx globalIdxs idx st =
     (if unat idx \<ge> getOutputCount tx then Return argument_out_of_domain st
      else
        (case getOutput tx (unat idx) of
           InvalidOutput \<Rightarrow> Continue st
         | KeyOutput amt k \<Rightarrow>
             (case global_index_of env blockInfo globalIdxs idx of
                None \<Rightarrow> Stop OutOfBoundsRead
              | Some g \<Rightarrow>
                  (case generate_key_image_helper env account (getTransactionPublicKey tx) (unat idx) of
                     (ephemeral, keyImage) \<Rightarrow>
                       if \<not> NDEBUG env \<and> k \<noteq> ephemeral then Stop AssertionFailed
                       else
                         (case stage_key reg (getTransactionHash tx)
                                 (DuplicateOutputKey (getTransactionHash tx))
                                 (SameOutputKeyTwice (getTransactionHash tx)) k st of
                            Continue st' \<Rightarrow>
                              Continue (st'\<lparr>transfers := transfers st' @
                                [\<lparr>outputType = Key,
                                  transactionPublicKey = getTransactionPublicKey tx,
                                  outputInTransaction = idx,
                                  globalOutputIndex = g,
                                  amount = amt,
                                  detail = KeyDetail k keyImage\<rparr>]\<rparr>)
                          | Return ec st' \<Rightarrow> Return ec st'
                          | Stop f \<Rightarrow> Stop f)))
         | MultisignatureOutput amt ks required \<Rightarrow>
             (case global_index_of env blockInfo globalIdxs idx of
                None \<Rightarrow> Stop OutOfBoundsRead
              | Some g \<Rightarrow>
                  (case stage_multisignature_keys reg (getTransactionHash tx) ks st of
                     Continue st' \<Rightarrow>
                       Continue (st'\<lparr>transfers := transfers st' @
                         [\<lparr>outputType = Multisignature,
                           transactionPublicKey = getTransactionPublicKey tx,
                           outputInTransaction = idx,
                           globalOutputIndex = g,
                           amount = amt,
                           detail = MultisignatureDetail (ucast required)\<rparr>]\<rparr>)
                   | Return ec st' \<Rightarrow> Return ec st'
                   | Stop f \<Rightarrow> Stop f))))"

fun createTransfers_loop ::
  "Env \<Rightarrow> Registry \<Rightarrow> AccountKeys \<Rightarrow> TransactionBlockInfo \<Rightarrow> TransactionReader \<Rightarrow>
     u32 list \<Rightarrow> u32 list \<Rightarrow> BuildState \<Rightarrow> BuildState flow" where
  "createTransfers_loop env reg account blockInfo tx globalIdxs [] st = Continue st"
| "createTransfers_loop env reg account blockInfo tx globalIdxs (idx # rest) st =
     (case createTransfers_body env reg account blockInfo tx globalIdxs idx st of
        Continue st' \<Rightarrow> createTransfers_loop env reg account blockInfo tx globalIdxs rest st'
      | Return ec st' \<Rightarrow> Return ec st'
      | Stop f \<Rightarrow> Stop f)"

text \<open>
  \<^verbatim>\<open>createTransfers\<close> (lines 447-558). It takes the caller's \<^verbatim>\<open>transfers\<close> vector, the
  registry and the log, and gives back the error code with all three. Falling out of the
  loop merges the hash and the staged keys into the registry; a \<^verbatim>\<open>return\<close> inside the
  loop leaves the registry as it was and the vector as the loop left it.
\<close>

definition createTransfers ::
  "Env \<Rightarrow> AccountKeys \<Rightarrow> TransactionBlockInfo \<Rightarrow> TransactionReader \<Rightarrow> u32 list \<Rightarrow> u32 list \<Rightarrow>
     TransactionOutputInformationIn list \<times> Registry \<times> log_event list \<Rightarrow>
     fault + (error_code \<times> TransactionOutputInformationIn list \<times> Registry \<times> log_event list)" where
  "createTransfers env account blockInfo tx outputs globalIdxs s =
     (case s of (ts, reg, lg) \<Rightarrow>
        (case createTransfers_loop env reg account blockInfo tx globalIdxs outputs
                \<lparr>transfers = ts, temp_keys = [], logged = lg\<rparr> of
           Continue st \<Rightarrow>
             Inr (success, transfers st,
                  reg\<lparr>transactions_hash_seen :=
                        insert (getTransactionHash tx) (transactions_hash_seen reg),
                      public_keys_seen := public_keys_seen reg \<union> set (temp_keys st)\<rparr>,
                  logged st)
         | Return ec st \<Rightarrow> Inr (ec, transfers st, reg, logged st)
         | Stop f \<Rightarrow> Inl f))"

section \<open>The output scanner\<close>

text \<open>
  \<^verbatim>\<open>std::unordered_map<K, std::vector<V>>\<close> is an association list with distinct keys;
  \<^verbatim>\<open>m[k].push_back(v)\<close> creates the entry when it is missing.
\<close>

fun push_back_at :: "'k \<Rightarrow> 'v \<Rightarrow> ('k \<times> 'v list) list \<Rightarrow> ('k \<times> 'v list) list" where
  "push_back_at k v [] = [(k, [v])]"
| "push_back_at k v ((k', vs) # rest) =
     (if k' = k then (k', vs @ [v]) # rest else (k', vs) # push_back_at k v rest)"

text \<open>
  The scanner fills the \<^verbatim>\<open>outputs\<close> map. Each call of \<^verbatim>\<open>underive_public_key\<close> is
  recorded with its arguments (derivation, index, key), in order.
\<close>

record ScanState =
  found :: "(PublicKey \<times> u32 list) list"
  underive_calls :: "(KeyDerivation \<times> nat \<times> PublicKey) list"

definition checkOutputKey ::
  "Env \<Rightarrow> KeyDerivation \<Rightarrow> PublicKey \<Rightarrow> nat \<Rightarrow> nat \<Rightarrow> PublicKey set \<Rightarrow> ScanState \<Rightarrow> ScanState" where
  "checkOutputKey env derivation k keyIndex outputIndex spendKeys st =
     (let spendKey = underive_public_key env derivation keyIndex k;
          st' = st\<lparr>underive_calls := underive_calls st @ [(derivation, keyIndex, k)]\<rparr>
      in if spendKey \<in> spendKeys
         then st'\<lparr>found := push_back_at spendKey (of_nat outputIndex) (found st')\<rparr>
         else st')"

text \<open>
  The body of the loop over the outputs (lines 79-99); the state is the running
  \<^verbatim>\<open>keyIndex\<close> with the scan state.
\<close>

definition findMyOutputs_body ::
  "Env \<Rightarrow> KeyDerivation \<Rightarrow> PublicKey set \<Rightarrow> TransactionReader \<Rightarrow> nat \<Rightarrow>
     nat \<times> ScanState \<Rightarrow> nat \<times> ScanState" where
  "findMyOutputs_body env derivation spendKeys tx idx s =
     (case s of (keyIndex, st) \<Rightarrow>
        (case getOutput tx idx of
           KeyOutput amt k \<Rightarrow>
             (keyIndex + 1, checkOutputKey env derivation k keyIndex idx spendKeys st)
         | MultisignatureOutput amt ks required \<Rightarrow>
             fold (\<lambda>k (keyIndex', st').
                     (keyIndex' + 1, checkOutputKey env derivation k idx idx spendKeys st'))
               ks (keyIndex, st)
         | InvalidOutput \<Rightarrow> (keyIndex, st)))"

definition findMyOutputs_loop ::
  "Env \<Rightarrow> KeyDerivation \<Rightarrow> PublicKey set \<Rightarrow> TransactionReader \<Rightarrow>
     nat \<times> ScanState \<Rightarrow> nat \<times> ScanState" where
  "findMyOutputs_loop env derivation spendKeys tx s =
     fold (findMyOutputs_body env derivation spendKeys tx) [0..<getOutputCount tx] s"

definition findMyOutputs ::
  "Env \<Rightarrow> TransactionReader \<Rightarrow> SecretKey \<Rightarrow> PublicKey set \<Rightarrow> ScanState \<Rightarrow> ScanState" where
  "findMyOutputs env tx viewSecret spendKeys st =
     (case generate_key_derivation env (getTransactionPublicKey tx) viewSecret of
        None \<Rightarrow> st
      | Some derivation \<Rightarrow> snd (findMyOutputs_loop env derivation spendKeys tx (0, st)))"

section \<open>The consumer: subscriptions and the synchronization start\<close>

datatype observer_event =
    OnBlocksAdded "Hash list"
  | OnTransactionUpdated Hash "PublicKey list"

text \<open>
  \<^verbatim>\<open>m_subscriptions\<close> is an unordered map from the spend public key to the owned
  subscription: an association list with distinct keys, whose order stands for the
  map's iteration order. The notifications sent through \<^verbatim>\<open>m_observerManager\<close> are
  recorded in order; a container is named by its subscription's key.
\<close>

record Consumer =
  m_viewSecret :: SecretKey
  m_subscriptions :: "(PublicKey \<times> Subscription) list"
  m_spendKeys :: "PublicKey set"
  m_syncStart :: SynchronizationStart
  m_observerEvents :: "observer_event list"

text \<open>
  Modelled from the spec: the class \<^verbatim>\<open>TransfersSubscription\<close> (its constructor,
  \<^verbatim>\<open>getSyncStart()\<close> and \<^verbatim>\<open>getKeys()\<close>) is not in the file. A subscription is built
  from an \<^verbatim>\<open>AccountSubscription\<close>, whose keys and synchronization start it keeps for its
  life and reads back.
\<close>

definition new_TransfersSubscription :: "AccountSubscription \<Rightarrow> Subscription" where
  "new_TransfersSubscription subscription =
     \<lparr>keys = keys subscription, syncStart = syncStart subscription, history = []\<rparr>"

definition updateSyncStart :: "Consumer \<Rightarrow> Consumer" where
  "updateSyncStart c =
     c\<lparr>m_syncStart :=
         fold (\<lambda>kv start.
                 \<lparr>ss_timestamp = min (ss_timestamp start) (ss_timestamp (syncStart (snd kv))),
                  ss_height = min (ss_height start) (ss_height (syncStart (snd kv)))\<rparr>)
           (m_subscriptions c)
           \<lparr>ss_timestamp = - 1, ss_height = - 1\<rparr>\<rparr>"

text \<open>The constructor (lines 118-129): no subscriptions, then \<^verbatim>\<open>updateSyncStart()\<close>.\<close>

definition new_TransfersConsumer :: "SecretKey \<Rightarrow> Consumer" where
  "new_TransfersConsumer viewSecret =
     updateSyncStart
       \<lparr>m_viewSecret = viewSecret, m_subscriptions = [], m_spendKeys = {},
        m_syncStart = \<lparr>ss_timestamp = 0, ss_height = 0\<rparr>, m_observerEvents = []\<rparr>"

datatype consumer_error = ViewSecretKeyMismatch

text \<open>
  \<^verbatim>\<open>addSubscription\<close> (lines 131-152) throws on a foreign view secret, returns the
  stored subscription when the spend key is known, and otherwise stores a new one and
  adjusts the synchronization start.
\<close>

definition addSubscription ::
  "Consumer \<Rightarrow> AccountSubscription \<Rightarrow> consumer_error + (Subscription \<times> Consumer)" where
  "addSubscription c subscription =
     (if viewSecretKey (keys subscription) \<noteq> m_viewSecret c then Inl ViewSecretKeyMismatch
      else
        (case map_of (m_subscriptions c) (spendPublicKey (address (keys subscription))) of
           Some res \<Rightarrow> Inr (res, c)
         | None \<Rightarrow>
             (let res = new_TransfersSubscription subscription;
                  subs = m_subscriptions c @ [(spendPublicKey (address (keys subscription)), res)];
                  subStart = syncStart res
              in Inr (res,
                   c\<lparr>m_subscriptions := subs,
                     m_spendKeys := insert (spendPublicKey (address (keys subscription))) (m_spendKeys c),
                     m_syncStart :=
                       (if length subs = 1 then subStart
                        else (m_syncStart c)
                               \<lparr>ss_height := min (ss_height (m_syncStart c)) (ss_height subStart),
                                ss_timestamp := min (ss_timestamp (m_syncStart c))
                                                  (ss_timestamp subStart)\<rparr>)\<rparr>))))"

definition removeSubscription :: "Consumer \<Rightarrow> AccountPublicAddress \<Rightarrow> bool \<times> Consumer" where
  "removeSubscription c addr =
     (let c' = updateSyncStart
                 (c\<lparr>m_subscriptions :=
                       filter (\<lambda>kv. fst kv \<noteq> spendPublicKey addr) (m_subscriptions c),
                     m_spendKeys := m_spendKeys c - {spendPublicKey addr}\<rparr>)
      in (m_subscriptions c' = [], c'))"

definition getSyncStart :: "Consumer \<Rightarrow> SynchronizationStart" where
  "getSyncStart c = m_syncStart c"

text \<open>
  A caller's sequence of \<^verbatim>\<open>addSubscription\<close> and \<^verbatim>\<open>removeSubscription\<close> calls; a call
  that throws leaves the consumer as it was.
\<close>

datatype subscription_call =
    AddSubscription AccountSubscription
  | RemoveSubscription AccountPublicAddress

fun apply_call :: "Consumer \<Rightarrow> subscription_call \<Rightarrow> Consumer" where
  "apply_call c (AddSubscription subscription) =
     (case addSubscription c subscription of Inl e \<Rightarrow> c | Inr (res, c') \<Rightarrow> c')"
| "apply_call c (RemoveSubscription addr) = snd (removeSubscription c addr)"

definition apply_calls :: "Consumer \<Rightarrow> subscription_call list \<Rightarrow> Consumer" where
  "apply_calls c calls = foldl apply_call c calls"

section \<open>Preprocessing and applying one transaction\<close>

record PreprocessInfo =
  info_globalIdxs :: "u32 list"
  info_outputs :: "(PublicKey \<times> TransactionOutputInformationIn list) list"

text \<open>\<^verbatim>\<open>info.outputs[k]\<close>: the vector stored under \<open>k\<close>, empty when the entry is new.\<close>

definition outputs_at ::
  "(PublicKey \<times> TransactionOutputInformationIn list) list \<Rightarrow> PublicKey \<Rightarrow>
     TransactionOutputInformationIn list" where
  "outputs_at m k = (case map_of m k of Some ts \<Rightarrow> ts | None \<Rightarrow> [])"

fun assign_at :: "'k \<Rightarrow> 'v \<Rightarrow> ('k \<times> 'v) list \<Rightarrow> ('k \<times> 'v) list" where
  "assign_at k v [] = [(k, v)]"
| "assign_at k v ((k', v') # rest) =
     (if k' = k then (k', v) # rest else (k', v') # assign_at k v rest)"

text \<open>The loop over the scanner's hits (lines 580-594).\<close>

fun preprocessOutputs_loop ::
  "Env \<Rightarrow> Consumer \<Rightarrow> TransactionBlockInfo \<Rightarrow> TransactionReader \<Rightarrow> (PublicKey \<times> u32 list) list \<Rightarrow>
     PreprocessInfo \<times> Registry \<times> log_event list \<Rightarrow>
     fault + (error_code \<times> PreprocessInfo \<times> Registry \<times> log_event list)" where
  "preprocessOutputs_loop env c blockInfo tx [] s = (case s of (info, reg, lg) \<Rightarrow> Inr (success, info, reg, lg))"
| "preprocessOutputs_loop env c blockInfo tx (kv # rest) s =
     (case s of (info, reg, lg) \<Rightarrow>
        (case map_of (m_subscriptions c) (fst kv) of
           None \<Rightarrow> preprocessOutputs_loop env c blockInfo tx rest (info, reg, lg)
         | Some sub \<Rightarrow>
             (case createTransfers env (keys sub) blockInfo tx (snd kv) (info_globalIdxs info)
                     (outputs_at (info_outputs info) (fst kv), reg, lg) of
                Inl f \<Rightarrow> Inl f
              | Inr (errorCode, ts, reg', lg') \<Rightarrow>
                  (let info' = info\<lparr>info_outputs := assign_at (fst kv) ts (info_outputs info)\<rparr>
                   in if errorCode \<noteq> success then Inr (errorCode, info', reg', lg')
                      else preprocessOutputs_loop env c blockInfo tx rest (info', reg', lg')))))"

text \<open>
  \<^verbatim>\<open>preprocessOutputs\<close> (lines 560-597). \<^verbatim>\<open>getGlobalIndices\<close> clears the vector, lets
  the node fill it and returns the node's error code.
\<close>

definition preprocessOutputs ::
  "Env \<Rightarrow> Consumer \<Rightarrow> TransactionBlockInfo \<Rightarrow> TransactionReader \<Rightarrow>
     PreprocessInfo \<times> Registry \<times> log_event list \<Rightarrow>
     fault + (error_code \<times> PreprocessInfo \<times> Registry \<times> log_event list)" where
  "preprocessOutputs env c blockInfo tx s =
     (case s of (info, reg, lg) \<Rightarrow>
        (let hits = found (findMyOutputs env tx (m_viewSecret c) (m_spendKeys c)
                             \<lparr>found = [], underive_calls = []\<rparr>)
         in if hits = [] then Inr (success, info, reg, lg)
            else if height blockInfo \<noteq> WALLET_UNCONFIRMED_TRANSACTION_HEIGHT env then
              (case getTransactionOutsGlobalIndices env (getTransactionHash tx) of
                 (errorCode, idxs) \<Rightarrow>
                   if errorCode \<noteq> success
                   then Inr (errorCode, info\<lparr>info_globalIdxs := idxs\<rparr>, reg, lg)
                   else preprocessOutputs_loop env c blockInfo tx hits
                          (info\<lparr>info_globalIdxs := idxs\<rparr>, reg, lg))
            else preprocessOutputs_loop env c blockInfo tx hits (info, reg, lg)))"

text \<open>
  \<^verbatim>\<open>processOutputs\<close> (lines 649-676) gives back \<^verbatim>\<open>contains\<close>, \<^verbatim>\<open>updated\<close> and the
  subscription with the calls made on it. The \<^verbatim>\<open>assert\<close> ends the process unless
  assertions are compiled out.
\<close>

definition processOutputs ::
  "Env \<Rightarrow> TransactionBlockInfo \<Rightarrow> Subscription \<Rightarrow> TransactionReader \<Rightarrow>
     TransactionOutputInformationIn list \<Rightarrow> u32 list \<Rightarrow> fault + (bool \<times> bool \<times> Subscription)" where
  "processOutputs env blockInfo sub tx ts idxs =
     (case getTransactionInformation env sub (getTransactionHash tx) of
        Some subscribtionTxInfo \<Rightarrow>
          if blockHeight subscribtionTxInfo = WALLET_UNCONFIRMED_TRANSACTION_HEIGHT env
             \<and> height blockInfo \<noteq> WALLET_UNCONFIRMED_TRANSACTION_HEIGHT env
          then Inr (True, True,
                    sub\<lparr>history := history sub @
                          [MarkTransactionConfirmed blockInfo (getTransactionHash tx) idxs]\<rparr>)
          else if \<not> NDEBUG env \<and> blockHeight subscribtionTxInfo \<noteq> height blockInfo
          then Inl AssertionFailed
          else Inr (True, False, sub)
      | None \<Rightarrow>
          (let updated = addTransaction_recorded env sub blockInfo tx ts
           in Inr (updated, updated,
                   sub\<lparr>history := history sub @ [AddTransaction blockInfo tx ts]\<rparr>)))"

text \<open>The loop of \<^verbatim>\<open>processTransaction\<close> over the subscriptions (lines 622-639).\<close>

fun processTransaction_loop ::
  "Env \<Rightarrow> TransactionBlockInfo \<Rightarrow> TransactionReader \<Rightarrow> PreprocessInfo \<Rightarrow>
     (PublicKey \<times> Subscription) list \<Rightarrow> bool \<times> PublicKey list \<times> (PublicKey \<times> Subscription) list \<Rightarrow>
     fault + (bool \<times> PublicKey list \<times> (PublicKey \<times> Subscription) list)" where
  "processTransaction_loop env blockInfo tx info [] acc = Inr acc"
| "processTransaction_loop env blockInfo tx info (kv # rest) acc =
     (case acc of (someContainerUpdated, transactionContainers, done) \<Rightarrow>
        (case processOutputs env blockInfo (snd kv) tx (outputs_at (info_outputs info) (fst kv))
                (info_globalIdxs info) of
           Inl f \<Rightarrow> Inl f
         | Inr (containerContainsTx, containerUpdated, sub') \<Rightarrow>
             processTransaction_loop env blockInfo tx info rest
               (someContainerUpdated \<or> containerUpdated,
                transactionContainers @ (if containerContainsTx then [fst kv] else []),
                done @ [(fst kv, sub')])))"

definition processTransaction ::
  "Env \<Rightarrow> Consumer \<Rightarrow> TransactionBlockInfo \<Rightarrow> TransactionReader \<Rightarrow> PreprocessInfo \<Rightarrow>
     fault + Consumer" where
  "processTransaction env c blockInfo tx info =
     (case processTransaction_loop env blockInfo tx info (m_subscriptions c) (False, [], []) of
        Inl f \<Rightarrow> Inl f
      | Inr (someContainerUpdated, transactionContainers, subs) \<Rightarrow>
          Inr (c\<lparr>m_subscriptions := subs,
                 m_observerEvents := m_observerEvents c @
                   (if someContainerUpdated
                    then [OnTransactionUpdated (getTransactionHash tx) transactionContainers]
                    else [])\<rparr>))"

text \<open>
  Modelled from the spec: \<^verbatim>\<open>forEachSubscription\<close> is declared in the header, which is
  not in the file. The given call is made on every stored subscription.
\<close>

definition forEachSubscription :: "sub_event \<Rightarrow> Consumer \<Rightarrow> Consumer" where
  "forEachSubscription ev c =
     c\<lparr>m_subscriptions :=
         map (\<lambda>kv. (fst kv, (snd kv)\<lparr>history := history (snd kv) @ [ev]\<rparr>)) (m_subscriptions c)\<rparr>"

section \<open>The batch pipeline\<close>

record Block =
  block_timestamp :: u64

record CompleteBlock =
  blockHash :: Hash
  block :: "Block option"
  transactions :: "TransactionReader list"

record Tx =
  tx_blockInfo :: TransactionBlockInfo
  tx_reader :: TransactionReader

record PreprocessedTx = Tx +
  tx_info :: PreprocessInfo

text \<open>
  The number of processing threads (lines 242-245, 305-307): what the platform reports,
  or 2 when it reports 0.
\<close>

definition worker_count :: "Env \<Rightarrow> nat" where
  "worker_count env =
     (let workers = unat (hardware_concurrency env) in if workers = 0 then 2 else workers)"

text \<open>
  The pushing thread (lines 251-283). The inner loop walks the transactions of one block
  and counts the position in the block; the outer loop walks the blocks, skipping a block
  that is not initialized or older than the synchronization start.
\<close>

fun block_items :: "Env \<Rightarrow> TransactionBlockInfo \<Rightarrow> TransactionReader list \<Rightarrow> Tx list" where
  "block_items env blockInfo [] = []"
| "block_items env blockInfo (tx # rest) =
     (if getTransactionPublicKey tx = NULL_PUBLIC_KEY env
      then block_items env (blockInfo\<lparr>transactionIndex := transactionIndex blockInfo + 1\<rparr>) rest
      else \<lparr>tx_blockInfo = blockInfo, tx_reader = tx\<rparr> #
           block_items env (blockInfo\<lparr>transactionIndex := transactionIndex blockInfo + 1\<rparr>) rest)"

definition pushed_items :: "Env \<Rightarrow> Consumer \<Rightarrow> CompleteBlock list \<Rightarrow> u32 \<Rightarrow> u32 \<Rightarrow> Tx list" where
  "pushed_items env c blocks startHeight count =
     concat (map (\<lambda>i.
        (case block (blocks ! i) of
           None \<Rightarrow> []
         | Some b \<Rightarrow>
             if ss_timestamp (m_syncStart c) \<noteq> 0 \<and> block_timestamp b < ss_timestamp (m_syncStart c)
             then []
             else block_items env
                    \<lparr>height = startHeight + of_nat i, timestamp = block_timestamp b,
                     transactionIndex = 0\<rparr>
                    (transactions (blocks ! i))))
       [0..<unat count])"

definition getBlockHashes :: "CompleteBlock list \<Rightarrow> u32 \<Rightarrow> Hash list" where
  "getBlockHashes blocks count = map (\<lambda>i. blockHash (blocks ! i)) [0..<unat count]"

text \<open>
  The processing threads (lines 285-307) run concurrently. A thread is either about to
  test the loop condition, or holds an item it has popped, or holds the output it is
  about to append under the mutex, or has returned its error code. The shared state is
  the queue, the stop flag, the registry with the log, and the vector of preprocessed
  transactions; every call of \<^verbatim>\<open>preprocessOutputs\<close> is recorded with its result.
  A thread takes one step at a time, and \<^verbatim>\<open>preprocessOutputs\<close> is one step.

  Modelled from the spec: \<^verbatim>\<open>BlockingQueue\<close> is not in the file. It is a bounded
  first-in first-out queue: \<^verbatim>\<open>pop\<close> hands out the items in the order they were
  pushed, and fails once the queue is closed and empty. The queue of the model holds
  from the start everything the pushing thread enumerates, in that order, so a thread
  that finds it empty finds it closed. The pushing thread stops at the next block once the
  stop flag is set; no thread pops once the flag is set, so what is then left unpushed
  is what the model leaves unpopped. How long a push or a pop waits is not modelled.
\<close>

datatype worker = Ready | Holding Tx | Produced PreprocessedTx | Finished error_code

record Phase =
  inputQueue :: "Tx list"
  stopProcessing :: bool
  seen :: Registry
  logger :: "log_event list"
  preprocessedTransactions :: "PreprocessedTx list"
  workers :: "worker list"
  preprocess_results :: "(Tx \<times> error_code) list"

definition worker_step :: "Env \<Rightarrow> Consumer \<Rightarrow> nat \<Rightarrow> Phase \<Rightarrow> fault + Phase" where
  "worker_step env c w ph =
     (if length (workers ph) \<le> w then Inr ph
      else
        (case workers ph ! w of
           Ready \<Rightarrow>
             (case inputQueue ph of
                item # rest \<Rightarrow>
                  if stopProcessing ph
                  then Inr (ph\<lparr>workers := (workers ph)[w := Finished success]\<rparr>)
                  else Inr (ph\<lparr>inputQueue := rest, workers := (workers ph)[w := Holding item]\<rparr>)
              | [] \<Rightarrow> Inr (ph\<lparr>workers := (workers ph)[w := Finished success]\<rparr>))
         | Holding item \<Rightarrow>
             (case preprocessOutputs env c (tx_blockInfo item) (tx_reader item)
                     (\<lparr>info_globalIdxs = [], info_outputs = []\<rparr>, seen ph, logger ph) of
                Inl f \<Rightarrow> Inl f
              | Inr (ec, info, reg, lg) \<Rightarrow>
                  if ec \<noteq> success
                  then Inr (ph\<lparr>stopProcessing := True, seen := reg, logger := lg,
                               workers := (workers ph)[w := Finished ec],
                               preprocess_results := preprocess_results ph @ [(item, ec)]\<rparr>)
                  else Inr (ph\<lparr>seen := reg, logger := lg,
                               workers := (workers ph)
                                 [w := Produced \<lparr>tx_blockInfo = tx_blockInfo item,
                                                 tx_reader = tx_reader item, tx_info = info\<rparr>],
                               preprocess_results := preprocess_results ph @ [(item, ec)]\<rparr>))
         | Produced out \<Rightarrow>
             Inr (ph\<lparr>preprocessedTransactions := preprocessedTransactions ph @ [out],
                     workers := (workers ph)[w := Ready]\<rparr>)
         | Finished ec \<Rightarrow> Inr ph))"

text \<open>An interleaving of the threads: the list of the thread numbers, one per step.\<close>

fun run_schedule :: "Env \<Rightarrow> Consumer \<Rightarrow> nat list \<Rightarrow> Phase \<Rightarrow> fault + Phase" where
  "run_schedule env c [] ph = Inr ph"
| "run_schedule env c (w # ws) ph =
     (case worker_step env c w ph of
        Inl f \<Rightarrow> Inl f
      | Inr ph' \<Rightarrow> run_schedule env c ws ph')"

text \<open>
  \<^verbatim>\<open>f.get()\<close> waits until the thread has returned: a thread that has not finished under
  the given interleaving goes on until it has.
\<close>

definition steps_left :: "nat \<Rightarrow> Phase \<Rightarrow> nat" where
  "steps_left w ph =
     (if length (workers ph) \<le> w then 0
      else
        (case workers ph ! w of
           Ready \<Rightarrow> 3 * length (inputQueue ph) + 1
         | Holding item \<Rightarrow> 3 * length (inputQueue ph) + 3
         | Produced out \<Rightarrow> 3 * length (inputQueue ph) + 2
         | Finished ec \<Rightarrow> 0))"

function finish_worker :: "Env \<Rightarrow> Consumer \<Rightarrow> nat \<Rightarrow> Phase \<Rightarrow> fault + Phase" where
  "finish_worker env c w ph =
     (if steps_left w ph = 0 then Inr ph
      else
        (case worker_step env c w ph of
           Inl f \<Rightarrow> Inl f
         | Inr ph' \<Rightarrow> finish_worker env c w ph'))"
  by pat_completeness auto
termination
  by (relation "measure (\<lambda>(env, c, w, ph). steps_left w ph)")
     (auto simp: steps_left_def worker_step_def
           split: if_splits worker.splits list.splits sum.splits prod.splits)

declare finish_worker.simps [simp del]

fun finish_workers :: "Env \<Rightarrow> Consumer \<Rightarrow> nat list \<Rightarrow> Phase \<Rightarrow> fault + Phase" where
  "finish_workers env c [] ph = Inr ph"
| "finish_workers env c (w # ws) ph =
     (case finish_worker env c w ph of
        Inl f \<Rightarrow> Inl f
      | Inr ph' \<Rightarrow> finish_workers env c ws ph')"

text \<open>
  The state at the join, after the interleaving \<open>schedule\<close>: the threads start on the
  enumerated items with the registry and log as they are.
\<close>

definition processing_phase ::
  "Env \<Rightarrow> nat list \<Rightarrow> CompleteBlock list \<Rightarrow> u32 \<Rightarrow> u32 \<Rightarrow> Consumer \<times> Registry \<times> log_event list \<Rightarrow>
     fault + Phase" where
  "processing_phase env schedule blocks startHeight count s =
     (case s of (c, reg, lg) \<Rightarrow>
        (case run_schedule env c schedule
                \<lparr>inputQueue = pushed_items env c blocks startHeight count,
                 stopProcessing = False, seen = reg, logger = lg,
                 preprocessedTransactions = [],
                 workers = replicate (worker_count env) Ready,
                 preprocess_results = []\<rparr> of
           Inl f \<Rightarrow> Inl f
         | Inr ph \<Rightarrow> finish_workers env c [0..<length (workers ph)] ph))"

text \<open>
  What \<^verbatim>\<open>f.get()\<close> delivers for a thread: the error code the thread returned, or an
  exception the thread ended with. A thread of the model always returns its code: no
  step of the model throws, so \<^verbatim>\<open>f.get()\<close> of a finished thread is \<open>Returned\<close>.
\<close>

datatype outcome = Returned error_code | Thrown_system_error error_code | Thrown_exception

definition worker_result :: "worker \<Rightarrow> error_code" where
  "worker_result w = (case w of Finished ec \<Rightarrow> ec | _ \<Rightarrow> success)"

definition get_future :: "worker \<Rightarrow> outcome" where
  "get_future w = Returned (worker_result w)"

text \<open>
  The join (lines 309-321): a returned code is kept when it is the first that is not
  success; the code of a caught \<^verbatim>\<open>std::system_error\<close> is stored as it is, and any other
  exception stores \<^verbatim>\<open>operation_canceled\<close>.
\<close>

fun join_workers :: "error_code \<Rightarrow> outcome list \<Rightarrow> error_code" where
  "join_workers processingError [] = processingError"
| "join_workers processingError (f # fs) =
     join_workers
       (case f of
          Returned ec \<Rightarrow>
            if processingError = success \<and> ec \<noteq> success then ec else processingError
        | Thrown_system_error code \<Rightarrow> code
        | Thrown_exception \<Rightarrow> operation_canceled) fs"

text \<open>The loop that applies the sorted transactions (lines 336-338).\<close>

fun apply_preprocessed :: "Env \<Rightarrow> PreprocessedTx list \<Rightarrow> Consumer \<Rightarrow> fault + Consumer" where
  "apply_preprocessed env [] c = Inr c"
| "apply_preprocessed env (t # ts) c =
     (case processTransaction env c (tx_blockInfo t) (tx_reader t) (tx_info t) of
        Inl f \<Rightarrow> Inl f
      | Inr c' \<Rightarrow> apply_preprocessed env ts c')"

text \<open>
  \<^verbatim>\<open>onNewBlocks\<close> (lines 226-353). \<open>blocks\<close> is the caller's array; reading
  \<^verbatim>\<open>blocks[i]\<close> for \<open>i < count\<close> past its end is an out-of-bounds read.
  \<^verbatim>\<open>std::sort\<close> with the comparison of \<^verbatim>\<open>(height, transactionIndex)\<close> is a sort by
  that pair under the lexicographic order.
\<close>

definition onNewBlocks ::
  "Env \<Rightarrow> nat list \<Rightarrow> CompleteBlock list \<Rightarrow> u32 \<Rightarrow> u32 \<Rightarrow> Consumer \<times> Registry \<times> log_event list \<Rightarrow>
     fault + (bool \<times> Consumer \<times> Registry \<times> log_event list)" where
  "onNewBlocks env schedule blocks startHeight count s =
     (case s of (c, reg, lg) \<Rightarrow>
        if \<not> NDEBUG env \<and> count = 0 then Inl AssertionFailed
        else if length blocks < unat count then Inl OutOfBoundsRead
        else
          (case processing_phase env schedule blocks startHeight count (c, reg, lg) of
             Inl f \<Rightarrow> Inl f
           | Inr ph \<Rightarrow>
               (let processingError = join_workers success (map get_future (workers ph));
                    blockHashes = getBlockHashes blocks count
                in if processingError = success then
                     (case apply_preprocessed env
                             (sort_key (\<lambda>t. (height (tx_blockInfo t), transactionIndex (tx_blockInfo t)))
                                (preprocessedTransactions ph))
                             (c\<lparr>m_observerEvents := m_observerEvents c @ [OnBlocksAdded blockHashes]\<rparr>) of
                        Inl f \<Rightarrow> Inl f
                      | Inr c' \<Rightarrow>
                          Inr (True, forEachSubscription (AdvanceHeight (startHeight + count - 1)) c',
                               seen ph, logger ph))
                   else
                     Inr (False, forEachSubscription (OnError processingError startHeight) c,
                          seen ph, logger ph))))"

section \<open>Notions used to state the properties\<close>

subsection \<open>For the transfer builder\<close>

text \<open>The output keys an output carries, and the keys of a list of owned indices.\<close>

definition output_keys :: "TransactionOutput \<Rightarrow> PublicKey list" where
  "output_keys out =
     (case out of
        KeyOutput a k \<Rightarrow> [k]
      | MultisignatureOutput a ks r \<Rightarrow> ks
      | InvalidOutput \<Rightarrow> [])"

definition owned_keys :: "TransactionReader \<Rightarrow> u32 list \<Rightarrow> PublicKey list" where
  "owned_keys tx outputs = concat (map (\<lambda>idx. output_keys (getOutput tx (unat idx))) outputs)"

text \<open>An owned index for which the builder emits a transfer: a Key or Multisignature output.\<close>

definition addressable :: "TransactionReader \<Rightarrow> u32 \<Rightarrow> bool" where
  "addressable tx idx = (getOutputType tx (unat idx) \<noteq> Invalid)"

text \<open>One registry holds everything another holds.\<close>

definition registry_le :: "Registry \<Rightarrow> Registry \<Rightarrow> bool" where
  "registry_le r r' =
     (transactions_hash_seen r \<subseteq> transactions_hash_seen r' \<and>
      public_keys_seen r \<subseteq> public_keys_seen r')"

subsection \<open>For the scanner\<close>

text \<open>
  The running key index as the specification words it: every Key output counts one, a
  Multisignature output one per key of its list, any other output nothing; the index
  reached before output \<open>i\<close> is the count over the outputs before \<open>i\<close>.
\<close>

definition key_entries :: "TransactionOutput \<Rightarrow> nat" where
  "key_entries out =
     (case out of
        KeyOutput a k \<Rightarrow> 1
      | MultisignatureOutput a ks r \<Rightarrow> length ks
      | InvalidOutput \<Rightarrow> 0)"

definition running_key_index :: "TransactionReader \<Rightarrow> nat \<Rightarrow> nat" where
  "running_key_index tx i = sum_list (map (\<lambda>j. key_entries (getOutput tx j)) [0..<i])"

text \<open>
  The ownership tests the specification asks for, as triples (output position, index
  passed to \<^verbatim>\<open>underive_public_key\<close>, key): a Key output is tested with the running key
  index, each key of a Multisignature output with the output's position.
\<close>

definition output_checks :: "TransactionReader \<Rightarrow> nat \<Rightarrow> (nat \<times> nat \<times> PublicKey) list" where
  "output_checks tx i =
     (case getOutput tx i of
        KeyOutput a k \<Rightarrow> [(i, running_key_index tx i, k)]
      | MultisignatureOutput a ks r \<Rightarrow> map (\<lambda>k. (i, i, k)) ks
      | InvalidOutput \<Rightarrow> [])"

definition expected_checks :: "TransactionReader \<Rightarrow> nat \<Rightarrow> (nat \<times> nat \<times> PublicKey) list" where
  "expected_checks tx n = concat (map (output_checks tx) [0..<n])"

text \<open>The effect of one test on the result map: a watched spend key gets the position.\<close>

definition record_hit ::
  "Env \<Rightarrow> KeyDerivation \<Rightarrow> PublicKey set \<Rightarrow> nat \<times> nat \<times> PublicKey \<Rightarrow>
     (PublicKey \<times> u32 list) list \<Rightarrow> (PublicKey \<times> u32 list) list" where
  "record_hit env derivation spendKeys chk m =
     (case chk of (i, passed, k) \<Rightarrow>
        if underive_public_key env derivation passed k \<in> spendKeys
        then push_back_at (underive_public_key env derivation passed k) (of_nat i) m
        else m)"

subsection \<open>For the synchronization start\<close>

text \<open>The heights and the timestamps of the stored subscriptions' starts.\<close>

definition start_heights :: "Consumer \<Rightarrow> u64 set" where
  "start_heights c = (\<lambda>kv. ss_height (syncStart (snd kv))) ` set (m_subscriptions c)"

definition start_timestamps :: "Consumer \<Rightarrow> u64 set" where
  "start_timestamps c = (\<lambda>kv. ss_timestamp (syncStart (snd kv))) ` set (m_subscriptions c)"

text \<open>
  One pass of the loop of \<^verbatim>\<open>updateSyncStart\<close>, and the invariant of the consumer: the
  stored start is what a full recomputation gives.
\<close>

definition sync_step :: "PublicKey \<times> Subscription \<Rightarrow> SynchronizationStart \<Rightarrow> SynchronizationStart" where
  "sync_step kv start =
     \<lparr>ss_timestamp = min (ss_timestamp start) (ss_timestamp (syncStart (snd kv))),
      ss_height = min (ss_height start) (ss_height (syncStart (snd kv)))\<rparr>"

definition sync_start_current :: "Consumer \<Rightarrow> bool" where
  "sync_start_current c =
     (m_syncStart c = fold sync_step (m_subscriptions c) \<lparr>ss_timestamp = - 1, ss_height = - 1\<rparr>)"

subsection \<open>For the batch pipeline\<close>

text \<open>
  The \<^verbatim>\<open>(height, transactionIndex)\<close> pairs of the \<^verbatim>\<open>addTransaction\<close> calls among the
  calls a subscription has received, in the order of the calls; and the pair by which the
  preprocessed transactions are sorted. Pairs are compared height first, then index.
\<close>

fun add_transaction_order :: "sub_event list \<Rightarrow> (u32 \<times> u32) list" where
  "add_transaction_order [] = []"
| "add_transaction_order (AddTransaction blockInfo tx ts # evs) =
     (height blockInfo, transactionIndex blockInfo) # add_transaction_order evs"
| "add_transaction_order (ev # evs) = add_transaction_order evs"

definition apply_order :: "PreprocessedTx \<Rightarrow> u32 \<times> u32" where
  "apply_order t = (height (tx_blockInfo t), transactionIndex (tx_blockInfo t))"

text \<open>
  What applying one transaction tells a subscription (at most one \<^verbatim>\<open>addTransaction\<close>,
  with the transaction's own pair), and what applying a sorted list tells it (calls whose
  \<^verbatim>\<open>addTransaction\<close> pairs ascend and come from the list).
\<close>

definition told_once ::
  "TransactionBlockInfo \<Rightarrow> PublicKey \<times> Subscription \<Rightarrow> PublicKey \<times> Subscription \<Rightarrow> bool" where
  "told_once blockInfo kv kv' =
     (fst kv' = fst kv \<and>
      (\<exists>evs. history (snd kv') = history (snd kv) @ evs \<and>
         (add_transaction_order evs = [] \<or>
          add_transaction_order evs = [(height blockInfo, transactionIndex blockInfo)])))"

definition told_in_order ::
  "(u32 \<times> u32) set \<Rightarrow> PublicKey \<times> Subscription \<Rightarrow> PublicKey \<times> Subscription \<Rightarrow> bool" where
  "told_in_order S kv kv' =
     (fst kv' = fst kv \<and>
      (\<exists>evs. history (snd kv') = history (snd kv) @ evs \<and>
         sorted (add_transaction_order evs) \<and> set (add_transaction_order evs) \<subseteq> S))"

text \<open>
  The invariant of the processing threads: the error codes that calls of
  \<^verbatim>\<open>preprocessOutputs\<close> have returned are exactly the error codes that threads have
  returned with.
\<close>

definition failures_recorded :: "Phase \<Rightarrow> bool" where
  "failures_recorded ph =
     ((\<forall>item ec. (item, ec) \<in> set (preprocess_results ph) \<longrightarrow> ec \<noteq> success \<longrightarrow>
         (\<exists>i<length (workers ph). workers ph ! i = Finished ec)) \<and>
      (\<forall>i<length (workers ph). \<forall>ec. workers ph ! i = Finished ec \<longrightarrow> ec \<noteq> success \<longrightarrow>
         (\<exists>item. (item, ec) \<in> set (preprocess_results ph))))"

text \<open>A state of the processing threads in which no item is left or held.\<close>

definition nothing_to_preprocess :: "Phase \<Rightarrow> bool" where
  "nothing_to_preprocess ph =
     (inputQueue ph = [] \<and> preprocess_results ph = [] \<and>
      (\<forall>i<length (workers ph). \<forall>item. workers ph ! i \<noteq> Holding item))"

section \<open>A small instance for running the model\<close>

text \<open>
  Concrete collaborators, used to evaluate the definitions on explicit inputs. The
  arithmetic stand-in for the curve derives the one-time key of output \<open>i\<close> as
  \<open>spend key + derivation + i\<close>; the node knows three global indices for every
  transaction except the one with hash 13, for which the lookup fails; the container
  remembers the height of the last transaction event it was told for a hash, and records
  a transaction when it is given at least one transfer.
\<close>

definition example_container :: "sub_event list \<Rightarrow> Hash \<Rightarrow> TransactionInformation option" where
  "example_container evs h =
     fold (\<lambda>ev known.
             case ev of
               AddTransaction bi tx ts \<Rightarrow>
                 if getTransactionHash tx = h then Some \<lparr>blockHeight = height bi\<rparr> else known
             | MarkTransactionConfirmed bi h' gs \<Rightarrow>
                 if h' = h then Some \<lparr>blockHeight = height bi\<rparr> else known
             | OnError ec hh \<Rightarrow> known
             | AdvanceHeight hh \<Rightarrow> known) evs None"

definition example_env :: Env where
  "example_env =
     \<lparr>generate_key_derivation = (\<lambda>R a. if R = 0 then None else Some (R + a)),
      underive_public_key = (\<lambda>D i P. P - D - i),
      generate_key_image_helper =
        (\<lambda>account R i. (spendPublicKey (address account) + (R + viewSecretKey account) + i,
                        spendSecretKey account + i)),
      getTransactionOutsGlobalIndices =
        (\<lambda>h. if h = 13 then (node_error 1, []) else (success, [40, 41, 42])),
      WALLET_UNCONFIRMED_TRANSACTION_HEIGHT = 0xFFFFFFFF,
      UNCONFIRMED_TRANSACTION_GLOBAL_OUTPUT_INDEX = 0xFFFFFFFF,
      NULL_PUBLIC_KEY = 0,
      hardware_concurrency = 2,
      NDEBUG = False,
      getTransactionInformation = (\<lambda>sub h. example_container (history sub) h),
      addTransaction_recorded = (\<lambda>sub bi tx ts. ts \<noteq> [])\<rparr>"

definition example_account :: AccountKeys where
  "example_account =
     \<lparr>address = \<lparr>spendPublicKey = 100, viewPublicKey = 200\<rparr>,
      spendSecretKey = 300, viewSecretKey = 2\<rparr>"

definition example_tx :: TransactionReader where
  "example_tx = \<lparr>getTransactionPublicKey = 1, getTransactionHash = 7,
                 transactionOutputs = [KeyOutput 10 103, KeyOutput 20 104]\<rparr>"

definition block_info_at :: "u32 \<Rightarrow> u32 \<Rightarrow> TransactionBlockInfo" where
  "block_info_at h i = \<lparr>height = h, timestamp = 0, transactionIndex = i\<rparr>"

text \<open>
  A second transaction (one Key output of the same account) with a chosen hash, and a
  batch of two blocks at heights 10 and 11 holding one transaction each.
\<close>

definition example_tx_b :: "Hash \<Rightarrow> TransactionReader" where
  "example_tx_b h = \<lparr>getTransactionPublicKey = 5, getTransactionHash = h,
                     transactionOutputs = [KeyOutput 30 107]\<rparr>"

definition example_blocks :: "Hash \<Rightarrow> CompleteBlock list" where
  "example_blocks h =
     [\<lparr>blockHash = 1000, block = Some \<lparr>block_timestamp = 50\<rparr>, transactions = [example_tx]\<rparr>,
      \<lparr>blockHash = 1001, block = Some \<lparr>block_timestamp = 60\<rparr>, transactions = [example_tx_b h]\<rparr>]"

text \<open>
  The empty registry, the transfers the builder makes of the two transactions, and a
  consumer with the one subscription of the account, given what the subscription and the
  observers have been told.
\<close>

definition example_registry :: Registry where
  "example_registry = \<lparr>transactions_hash_seen = {}, public_keys_seen = {}\<rparr>"

definition example_transfers_a :: "TransactionOutputInformationIn list" where
  "example_transfers_a =
     [\<lparr>outputType = Key, transactionPublicKey = 1, outputInTransaction = 0,
       globalOutputIndex = 40, amount = 10, detail = KeyDetail 103 300\<rparr>,
      \<lparr>outputType = Key, transactionPublicKey = 1, outputInTransaction = 1,
       globalOutputIndex = 41, amount = 20, detail = KeyDetail 104 301\<rparr>]"

definition example_transfers_b :: "TransactionOutputInformationIn list" where
  "example_transfers_b =
     [\<lparr>outputType = Key, transactionPublicKey = 5, outputInTransaction = 0,
       globalOutputIndex = 40, amount = 30, detail = KeyDetail 107 300\<rparr>]"

definition example_consumer_told :: "sub_event list \<Rightarrow> observer_event list \<Rightarrow> Consumer" where
  "example_consumer_told evs obs =
     \<lparr>m_viewSecret = 2,
      m_subscriptions =
        [(100, \<lparr>keys = example_account, syncStart = \<lparr>ss_timestamp = 0, ss_height = 0\<rparr>,
                history = evs\<rparr>)],
      m_spendKeys = {100},
      m_syncStart = \<lparr>ss_timestamp = 0, ss_height = 0\<rparr>,
      m_observerEvents = obs\<rparr>"

text \<open>
  The state at the join when the second transaction of the batch has hash 13 and one
  thread takes every step: the first transaction is preprocessed, the lookup for the
  second fails.
\<close>

definition example_failed_phase :: Phase where
  "example_failed_phase =
     \<lparr>inputQueue = [], stopProcessing = True,
      seen = \<lparr>transactions_hash_seen = {7}, public_keys_seen = {103, 104}\<rparr>,
      logger = [],
      preprocessedTransactions =
        [\<lparr>tx_blockInfo = \<lparr>height = 10, timestamp = 50, transactionIndex = 0\<rparr>,
          tx_reader = example_tx,
          tx_info = \<lparr>info_globalIdxs = [40, 41, 42],
                      info_outputs = [(100, example_transfers_a)]\<rparr>\<rparr>],
      workers = [Finished (node_error 1), Finished success],
      preprocess_results =
        [(\<lparr>tx_blockInfo = \<lparr>height = 10, timestamp = 50, transactionIndex = 0\<rparr>,
           tx_reader = example_tx\<rparr>, success),
         (\<lparr>tx_blockInfo = \<lparr>height = 11, timestamp = 60, transactionIndex = 0\<rparr>,
           tx_reader = example_tx_b 13\<rparr>, node_error 1)]\<rparr>"

text \<open>A subscription whose container knows the first transaction from the pool.\<close>

definition example_pool_subscription :: Subscription where
  "example_pool_subscription =
     \<lparr>keys = example_account, syncStart = \<lparr>ss_timestamp = 0, ss_height = 0\<rparr>,
      history = [AddTransaction (block_info_at 0xFFFFFFFF 0) example_tx []]\<rparr>"

text \<open>
  Three accounts of one view key are subscribed with different starts, and the third is
  removed again.
\<close>

definition example_calls :: "subscription_call list" where
  "example_calls =
     [AddSubscription \<lparr>keys = example_account,
                       syncStart = \<lparr>ss_timestamp = 1000, ss_height = 100\<rparr>\<rparr>,
      AddSubscription \<lparr>keys = example_account\<lparr>address := \<lparr>spendPublicKey = 110, viewPublicKey = 200\<rparr>\<rparr>,
                       syncStart = \<lparr>ss_timestamp = 2000, ss_height = 50\<rparr>\<rparr>,
      AddSubscription \<lparr>keys = example_account\<lparr>address := \<lparr>spendPublicKey = 120, viewPublicKey = 200\<rparr>\<rparr>,
                       syncStart = \<lparr>ss_timestamp = 500, ss_height = 70\<rparr>\<rparr>,
      RemoveSubscription \<lparr>spendPublicKey = 120, viewPublicKey = 200\<rparr>]"


section \<open>Lemmas about the transfer builder\<close>

lemma stage_key_Continue:
  "stage_key reg h d t k st = Continue st' \<Longrightarrow>
     logged st' = logged st \<and> transfers st' = transfers st \<and>
     temp_keys st' = (if h \<in> transactions_hash_seen reg then temp_keys st else temp_keys st @ [k])"
  by (auto simp: stage_key_def split: if_splits)

lemma stage_key_Return:
  "stage_key reg h d t k st = Return ec st' \<Longrightarrow>
     ec = success \<and> h \<notin> transactions_hash_seen reg \<and> transfers st' = transfers st \<and>
     temp_keys st' = temp_keys st \<and> (\<exists>e. logged st' = logged st @ [e])"
  by (auto simp: stage_key_def split: if_splits)

lemma stage_key_Stop: "stage_key reg h d t k st \<noteq> Stop f"
  by (simp add: stage_key_def)

lemma stage_multisignature_keys_Continue:
  "stage_multisignature_keys reg h ks st = Continue st' \<Longrightarrow>
     logged st' = logged st \<and> transfers st' = transfers st \<and>
     temp_keys st' = (if h \<in> transactions_hash_seen reg then temp_keys st else temp_keys st @ ks)"
proof (induction ks arbitrary: st)
  case Nil
  then show ?case by simp
next
  case (Cons k ks)
  from Cons.prems obtain st1 where
    a: "stage_key reg h (DuplicateMultisignatureKey h) (SameMultisignatureKeyTwice h) k st = Continue st1"
    and b: "stage_multisignature_keys reg h ks st1 = Continue st'"
    by (auto split: flow.splits)
  from stage_key_Continue [OF a] Cons.IH [OF b] show ?case by simp
qed

lemma stage_multisignature_keys_Return:
  "stage_multisignature_keys reg h ks st = Return ec st' \<Longrightarrow>
     ec = success \<and> h \<notin> transactions_hash_seen reg \<and> transfers st' = transfers st \<and>
     (\<exists>e. logged st' = logged st @ [e])"
proof (induction ks arbitrary: st)
  case Nil
  then show ?case by simp
next
  case (Cons k ks)
  show ?case
  proof (cases "stage_key reg h (DuplicateMultisignatureKey h) (SameMultisignatureKeyTwice h) k st")
    case (Continue st1)
    with Cons.prems have b: "stage_multisignature_keys reg h ks st1 = Return ec st'" by simp
    from stage_key_Continue [OF Continue] Cons.IH [OF b] show ?thesis by simp
  next
    case (Return ec1 st1)
    with Cons.prems have "ec1 = ec" "st1 = st'" by simp_all
    with stage_key_Return [OF Return] show ?thesis by simp
  next
    case (Stop f)
    then show ?thesis by (simp add: stage_key_Stop)
  qed
qed

lemma stage_multisignature_keys_Stop: "stage_multisignature_keys reg h ks st \<noteq> Stop f"
proof (induction ks arbitrary: st)
  case Nil
  then show ?case by simp
next
  case (Cons k ks)
  then show ?case
    by (cases "stage_key reg h (DuplicateMultisignatureKey h) (SameMultisignatureKeyTwice h) k st")
       (simp_all add: stage_key_Stop)
qed

text \<open>What one pass of the loop body appends when it falls through.\<close>

lemma createTransfers_body_Continue:
  assumes "createTransfers_body env reg account blockInfo tx globalIdxs idx st = Continue st'"
  shows "unat idx < getOutputCount tx"
    and "logged st' = logged st"
    and "temp_keys st' = (if getTransactionHash tx \<in> transactions_hash_seen reg then temp_keys st
                          else temp_keys st @ output_keys (getOutput tx (unat idx)))"
    and "\<exists>new. transfers st' = transfers st @ new \<and>
           map outputInTransaction new = filter (addressable tx) [idx] \<and>
           (\<forall>t\<in>set new. global_index_of env blockInfo globalIdxs (outputInTransaction t)
                           = Some (globalOutputIndex t))"
  using assms
  by (auto simp: createTransfers_body_def output_keys_def addressable_def getOutputType_def
      split: if_splits TransactionOutput.splits option.splits prod.splits flow.splits
      dest!: stage_key_Continue stage_multisignature_keys_Continue)

lemma createTransfers_body_Return:
  assumes "createTransfers_body env reg account blockInfo tx globalIdxs idx st = Return ec st'"
  shows "transfers st' = transfers st"
    and "ec = success \<or> ec = argument_out_of_domain"
    and "ec = success \<Longrightarrow> getTransactionHash tx \<notin> transactions_hash_seen reg \<and>
           (\<exists>e. logged st' = logged st @ [e])"
    and "ec = argument_out_of_domain \<Longrightarrow> st' = st \<and> getOutputCount tx \<le> unat idx"
  using assms
  by (auto simp: createTransfers_body_def
      split: if_splits TransactionOutput.splits option.splits prod.splits flow.splits
      dest!: stage_key_Return stage_multisignature_keys_Return)

lemma createTransfers_loop_Continue:
  "createTransfers_loop env reg account blockInfo tx globalIdxs outputs st = Continue st' \<Longrightarrow>
     (\<forall>idx\<in>set outputs. unat idx < getOutputCount tx) \<and>
     logged st' = logged st \<and>
     temp_keys st' = (if getTransactionHash tx \<in> transactions_hash_seen reg then temp_keys st
                      else temp_keys st @ owned_keys tx outputs) \<and>
     (\<exists>new. transfers st' = transfers st @ new \<and>
        map outputInTransaction new = filter (addressable tx) outputs \<and>
        (\<forall>t\<in>set new. global_index_of env blockInfo globalIdxs (outputInTransaction t)
                        = Some (globalOutputIndex t)))"
proof (induction outputs arbitrary: st)
  case Nil
  then show ?case by (simp add: owned_keys_def)
next
  case (Cons idx rest)
  from Cons.prems obtain st1 where
    a: "createTransfers_body env reg account blockInfo tx globalIdxs idx st = Continue st1"
    and b: "createTransfers_loop env reg account blockInfo tx globalIdxs rest st1 = Continue st'"
    by (auto split: flow.splits)
  note A = createTransfers_body_Continue [OF a]
  note B = Cons.IH [OF b]
  from A(4) obtain n1 where n1: "transfers st1 = transfers st @ n1"
    "map outputInTransaction n1 = filter (addressable tx) [idx]"
    "\<forall>t\<in>set n1. global_index_of env blockInfo globalIdxs (outputInTransaction t)
                        = Some (globalOutputIndex t)" by blast
  from B obtain n2 where n2: "transfers st' = transfers st1 @ n2"
    "map outputInTransaction n2 = filter (addressable tx) rest"
    "\<forall>t\<in>set n2. global_index_of env blockInfo globalIdxs (outputInTransaction t)
                        = Some (globalOutputIndex t)" by blast
  have "transfers st' = transfers st @ (n1 @ n2)" using n1(1) n2(1) by simp
  moreover have "map outputInTransaction (n1 @ n2) = filter (addressable tx) (idx # rest)"
    using n1(2) n2(2) by simp
  moreover have "\<forall>t\<in>set (n1 @ n2). global_index_of env blockInfo globalIdxs (outputInTransaction t)
                        = Some (globalOutputIndex t)" using n1(3) n2(3) by auto
  ultimately have "\<exists>new. transfers st' = transfers st @ new \<and>
        map outputInTransaction new = filter (addressable tx) (idx # rest) \<and>
        (\<forall>t\<in>set new. global_index_of env blockInfo globalIdxs (outputInTransaction t)
                        = Some (globalOutputIndex t))" by blast
  moreover have "\<forall>i\<in>set (idx # rest). unat i < getOutputCount tx" using A(1) B by simp
  moreover have "logged st' = logged st" using A(2) B by simp
  moreover have "temp_keys st' = (if getTransactionHash tx \<in> transactions_hash_seen reg then temp_keys st
                      else temp_keys st @ owned_keys tx (idx # rest))"
    using A(3) B by (simp add: owned_keys_def)
  ultimately show ?case by blast
qed

text \<open>A loop that leaves by \<^verbatim>\<open>return\<close> went through a prefix of the owned indices first.\<close>

lemma createTransfers_loop_Return:
  "createTransfers_loop env reg account blockInfo tx globalIdxs outputs st = Return ec st' \<Longrightarrow>
     \<exists>pre idx post st1. outputs = pre @ idx # post \<and>
        createTransfers_loop env reg account blockInfo tx globalIdxs pre st = Continue st1 \<and>
        createTransfers_body env reg account blockInfo tx globalIdxs idx st1 = Return ec st'"
proof (induction outputs arbitrary: st)
  case Nil
  then show ?case by simp
next
  case (Cons i rest)
  show ?case
  proof (cases "createTransfers_body env reg account blockInfo tx globalIdxs i st")
    case (Continue st1)
    with Cons.prems have "createTransfers_loop env reg account blockInfo tx globalIdxs rest st1 = Return ec st'"
      by simp
    from Cons.IH [OF this] obtain pre idx post st2 where
      p: "rest = pre @ idx # post"
      "createTransfers_loop env reg account blockInfo tx globalIdxs pre st1 = Continue st2"
      "createTransfers_body env reg account blockInfo tx globalIdxs idx st2 = Return ec st'" by blast
    have "i # rest = (i # pre) @ idx # post" using p(1) by simp
    moreover have "createTransfers_loop env reg account blockInfo tx globalIdxs (i # pre) st = Continue st2"
      using Continue p(2) by simp
    ultimately show ?thesis using p(3) by blast
  next
    case (Return ec1 st1)
    with Cons.prems have "ec1 = ec" "st1 = st'" by simp_all
    with Return have "createTransfers_body env reg account blockInfo tx globalIdxs i st = Return ec st'" by simp
    moreover have "i # rest = [] @ i # rest" by simp
    moreover have "createTransfers_loop env reg account blockInfo tx globalIdxs [] st = Continue st" by simp
    ultimately show ?thesis by blast
  next
    case (Stop f)
    with Cons.prems show ?thesis by simp
  qed
qed

lemma createTransfers_loop_append:
  "createTransfers_loop env reg account blockInfo tx globalIdxs pre st = Continue st1 \<Longrightarrow>
   createTransfers_loop env reg account blockInfo tx globalIdxs (pre @ post) st =
     createTransfers_loop env reg account blockInfo tx globalIdxs post st1"
  by (induction pre arbitrary: st) (auto split: flow.splits)

lemma createTransfers_Inr_cases:
  assumes "createTransfers env account blockInfo tx outputs globalIdxs (ts, reg, lg) = Inr (ec, ts', reg', lg')"
  obtains (completed) st where
      "createTransfers_loop env reg account blockInfo tx globalIdxs outputs
         \<lparr>transfers = ts, temp_keys = [], logged = lg\<rparr> = Continue st"
      "ec = success" "ts' = transfers st" "lg' = logged st"
      "reg' = reg\<lparr>transactions_hash_seen :=
                    insert (getTransactionHash tx) (transactions_hash_seen reg),
                  public_keys_seen := public_keys_seen reg \<union> set (temp_keys st)\<rparr>"
  | (returned) st where
      "createTransfers_loop env reg account blockInfo tx globalIdxs outputs
         \<lparr>transfers = ts, temp_keys = [], logged = lg\<rparr> = Return ec st"
      "ts' = transfers st" "lg' = logged st" "reg' = reg"
  using assms by (auto simp: createTransfers_def split: flow.splits)

lemma createTransfers_loop_Return_facts:
  assumes "createTransfers_loop env reg account blockInfo tx globalIdxs outputs st = Return ec st'"
  shows "ec = success \<or> ec = argument_out_of_domain"
    and "ec = success \<Longrightarrow> getTransactionHash tx \<notin> transactions_hash_seen reg \<and>
           (\<exists>e. logged st' = logged st @ [e])"
    and "ec = argument_out_of_domain \<Longrightarrow> logged st' = logged st \<and>
           (\<exists>idx\<in>set outputs. getOutputCount tx \<le> unat idx)"
    and "\<exists>new. transfers st' = transfers st @ new \<and>
           set (map outputInTransaction new) \<subseteq> set outputs \<and>
           (\<forall>t\<in>set new. global_index_of env blockInfo globalIdxs (outputInTransaction t)
                           = Some (globalOutputIndex t))"
proof -
  from createTransfers_loop_Return [OF assms] obtain pre idx post st1 where
    p: "outputs = pre @ idx # post"
      "createTransfers_loop env reg account blockInfo tx globalIdxs pre st = Continue st1"
      "createTransfers_body env reg account blockInfo tx globalIdxs idx st1 = Return ec st'"
    by blast
  note A = createTransfers_loop_Continue [OF p(2)]
  note B = createTransfers_body_Return [OF p(3)]
  show "ec = success \<or> ec = argument_out_of_domain" by (rule B(2))
  show "getTransactionHash tx \<notin> transactions_hash_seen reg \<and> (\<exists>e. logged st' = logged st @ [e])"
    if "ec = success" using B(3) [OF that] A by simp
  show "logged st' = logged st \<and> (\<exists>idx\<in>set outputs. getOutputCount tx \<le> unat idx)"
    if "ec = argument_out_of_domain" using B(4) [OF that] A p(1) by auto
  from A obtain new where n: "transfers st1 = transfers st @ new"
    "map outputInTransaction new = filter (addressable tx) pre"
    "\<forall>t\<in>set new. global_index_of env blockInfo globalIdxs (outputInTransaction t)
                           = Some (globalOutputIndex t)" by blast
  have "set (map outputInTransaction new) \<subseteq> set outputs" unfolding n(2) p(1) by auto
  with n(1,3) B(1) show "\<exists>new. transfers st' = transfers st @ new \<and>
           set (map outputInTransaction new) \<subseteq> set outputs \<and>
           (\<forall>t\<in>set new. global_index_of env blockInfo globalIdxs (outputInTransaction t)
                           = Some (globalOutputIndex t))" by auto
qed

lemmas createTransfers_eval =
  createTransfers_def createTransfers_body_def stage_key_def global_index_of_def
  getOutput_def getOutputCount_def getOutputType_def
  example_env_def example_account_def example_tx_def block_info_at_def

section \<open>Lemmas about the scanner, the consumer and the batch pipeline\<close>

subsection \<open>The scanner's loop\<close>

lemma checkOutputKey_calls:
  "underive_calls (checkOutputKey env D k passed i spendKeys st) = underive_calls st @ [(D, passed, k)]"
  by (simp add: checkOutputKey_def Let_def)

lemma checkOutputKey_found:
  "found (checkOutputKey env D k passed i spendKeys st) = record_hit env D spendKeys (i, passed, k) (found st)"
  by (simp add: checkOutputKey_def record_hit_def Let_def)

lemma multisignature_fold:
  "fold (\<lambda>k (keyIndex', st'). (keyIndex' + 1, checkOutputKey env D k i i spendKeys st')) ks (keyIndex, st)
     = (keyIndex + length ks,
        snd (fold (\<lambda>k (keyIndex', st'). (keyIndex' + 1, checkOutputKey env D k i i spendKeys st')) ks (keyIndex, st)))
   \<and> underive_calls (snd (fold (\<lambda>k (keyIndex', st'). (keyIndex' + 1, checkOutputKey env D k i i spendKeys st')) ks (keyIndex, st)))
       = underive_calls st @ map (\<lambda>k. (D, i, k)) ks
   \<and> found (snd (fold (\<lambda>k (keyIndex', st'). (keyIndex' + 1, checkOutputKey env D k i i spendKeys st')) ks (keyIndex, st)))
       = fold (record_hit env D spendKeys) (map (\<lambda>k. (i, i, k)) ks) (found st)"
proof (induction ks arbitrary: keyIndex st)
  case Nil
  then show ?case by simp
next
  case (Cons k ks)
  show ?case
    using Cons.IH [of "keyIndex + 1" "checkOutputKey env D k i i spendKeys st"]
    by (simp add: checkOutputKey_calls checkOutputKey_found prod_eq_iff)
qed

lemma findMyOutputs_body_facts:
  assumes "keyIndex = running_key_index tx i"
  shows "fst (findMyOutputs_body env D spendKeys tx i (keyIndex, st)) = running_key_index tx (Suc i)"
    and "underive_calls (snd (findMyOutputs_body env D spendKeys tx i (keyIndex, st)))
           = underive_calls st @ map (\<lambda>(i, passed, k). (D, passed, k)) (output_checks tx i)"
    and "found (snd (findMyOutputs_body env D spendKeys tx i (keyIndex, st)))
           = fold (record_hit env D spendKeys) (output_checks tx i) (found st)"
proof -
  have r: "running_key_index tx (Suc i) = running_key_index tx i + key_entries (getOutput tx i)"
    by (simp add: running_key_index_def)
  show "fst (findMyOutputs_body env D spendKeys tx i (keyIndex, st)) = running_key_index tx (Suc i)"
  proof (cases "getOutput tx i")
    case (KeyOutput a k)
    then show ?thesis using assms r by (simp add: findMyOutputs_body_def key_entries_def)
  next
    case (MultisignatureOutput a ks q)
    then show ?thesis
      using assms r multisignature_fold [of env D i spendKeys ks keyIndex st, THEN conjunct1]
      by (simp add: findMyOutputs_body_def key_entries_def prod_eq_iff)
  next
    case InvalidOutput
    then show ?thesis using assms r by (simp add: findMyOutputs_body_def key_entries_def)
  qed
  show "underive_calls (snd (findMyOutputs_body env D spendKeys tx i (keyIndex, st)))
           = underive_calls st @ map (\<lambda>(i, passed, k). (D, passed, k)) (output_checks tx i)"
  proof (cases "getOutput tx i")
    case (KeyOutput a k)
    then show ?thesis using assms
      by (simp add: findMyOutputs_body_def output_checks_def checkOutputKey_calls)
  next
    case (MultisignatureOutput a ks q)
    then show ?thesis
      using multisignature_fold [of env D i spendKeys ks keyIndex st]
      by (simp add: findMyOutputs_body_def output_checks_def comp_def)
  next
    case InvalidOutput
    then show ?thesis by (simp add: findMyOutputs_body_def output_checks_def)
  qed
  show "found (snd (findMyOutputs_body env D spendKeys tx i (keyIndex, st)))
           = fold (record_hit env D spendKeys) (output_checks tx i) (found st)"
  proof (cases "getOutput tx i")
    case (KeyOutput a k)
    then show ?thesis using assms
      by (simp add: findMyOutputs_body_def output_checks_def checkOutputKey_found)
  next
    case (MultisignatureOutput a ks q)
    then show ?thesis
      using multisignature_fold [of env D i spendKeys ks keyIndex st]
      by (simp add: findMyOutputs_body_def output_checks_def)
  next
    case InvalidOutput
    then show ?thesis by (simp add: findMyOutputs_body_def output_checks_def)
  qed
qed

lemma findMyOutputs_fold:
  "fst (fold (findMyOutputs_body env D spendKeys tx) [0..<n] (0, st)) = running_key_index tx n \<and>
   underive_calls (snd (fold (findMyOutputs_body env D spendKeys tx) [0..<n] (0, st)))
     = underive_calls st @ map (\<lambda>(i, passed, k). (D, passed, k)) (expected_checks tx n) \<and>
   found (snd (fold (findMyOutputs_body env D spendKeys tx) [0..<n] (0, st)))
     = fold (record_hit env D spendKeys) (expected_checks tx n) (found st)"
proof (induction n)
  case 0
  then show ?case by (simp add: running_key_index_def expected_checks_def)
next
  case (Suc n)
  obtain ki st1 where p: "fold (findMyOutputs_body env D spendKeys tx) [0..<n] (0, st) = (ki, st1)"
    by (cases "fold (findMyOutputs_body env D spendKeys tx) [0..<n] (0, st)")
  with Suc have ki: "ki = running_key_index tx n"
    and c: "underive_calls st1 = underive_calls st @ map (\<lambda>(i, passed, k). (D, passed, k)) (expected_checks tx n)"
    and f: "found st1 = fold (record_hit env D spendKeys) (expected_checks tx n) (found st)"
    by simp_all
  have e: "expected_checks tx (Suc n) = expected_checks tx n @ output_checks tx n"
    by (simp add: expected_checks_def)
  show ?case
    using findMyOutputs_body_facts [OF ki, of env D spendKeys st1] p c f e
    by simp
qed

subsection \<open>The synchronization start as a minimum\<close>

lemma updateSyncStart_alt:
  "updateSyncStart c =
     c\<lparr>m_syncStart := fold sync_step (m_subscriptions c) \<lparr>ss_timestamp = - 1, ss_height = - 1\<rparr>\<rparr>"
  unfolding updateSyncStart_def sync_step_def by (rule refl)

lemma fold_min_Min:
  "fold (\<lambda>x a. min a (f x)) xs (a0 :: 'a :: linorder) = Min (insert a0 (f ` set xs))"
proof (induction xs arbitrary: a0)
  case Nil
  then show ?case by simp
next
  case (Cons x xs)
  show ?case
  proof (cases "xs = []")
    case True
    then show ?thesis by simp
  next
    case False
    then have "f ` set xs \<noteq> {}" "finite (f ` set xs)" by simp_all
    then show ?thesis by (simp add: Cons.IH min.assoc)
  qed
qed

lemma fold_sync_step_height:
  "ss_height (fold sync_step subs s)
     = Min (insert (ss_height s) ((\<lambda>kv. ss_height (syncStart (snd kv))) ` set subs))"
proof -
  have "ss_height (fold sync_step subs s)
          = fold (\<lambda>kv a. min a (ss_height (syncStart (snd kv)))) subs (ss_height s)"
    by (induction subs arbitrary: s) (simp_all add: sync_step_def)
  then show ?thesis by (simp add: fold_min_Min)
qed

lemma fold_sync_step_timestamp:
  "ss_timestamp (fold sync_step subs s)
     = Min (insert (ss_timestamp s) ((\<lambda>kv. ss_timestamp (syncStart (snd kv))) ` set subs))"
proof -
  have "ss_timestamp (fold sync_step subs s)
          = fold (\<lambda>kv a. min a (ss_timestamp (syncStart (snd kv)))) subs (ss_timestamp s)"
    by (induction subs arbitrary: s) (simp_all add: sync_step_def)
  then show ?thesis by (simp add: fold_min_Min)
qed

lemma sync_start_current_update: "sync_start_current (updateSyncStart c)"
  by (simp add: sync_start_current_def updateSyncStart_alt)

lemma min_max_word: "min (- 1 :: 'a::len word) x = x"
  by (simp add: min.absorb2)

lemma sync_start_current_add:
  assumes "sync_start_current c" and "addSubscription c subscription = Inr (res, c')"
  shows "sync_start_current c'"
proof (cases "map_of (m_subscriptions c) (spendPublicKey (address (keys subscription)))")
  case (Some a)
  with assms show ?thesis by (auto simp: addSubscription_def split: if_splits)
next
  case None
  show ?thesis
  proof (cases "m_subscriptions c = []")
    case True
    with None assms show ?thesis
      by (auto simp: addSubscription_def sync_start_current_def sync_step_def Let_def min_max_word
          split: if_splits)
  next
    case False
    with None assms show ?thesis
      by (auto simp: addSubscription_def sync_start_current_def sync_step_def Let_def
          split: if_splits)
  qed
qed

lemma sync_start_current_call:
  "sync_start_current c \<Longrightarrow> sync_start_current (apply_call c call)"
proof (cases call)
  case (AddSubscription subscription)
  assume "sync_start_current c"
  then show ?thesis using AddSubscription sync_start_current_add [of c subscription]
    by (auto split: sum.splits)
next
  case (RemoveSubscription addr)
  then show ?thesis
    by (simp add: removeSubscription_def Let_def sync_start_current_update)
qed

lemma sync_start_current_calls:
  "sync_start_current c \<Longrightarrow> sync_start_current (apply_calls c calls)"
  unfolding apply_calls_def
  by (induction calls arbitrary: c) (simp_all add: sync_start_current_call)

lemma sync_start_current_new: "sync_start_current (new_TransfersConsumer viewSecret)"
  by (simp add: new_TransfersConsumer_def sync_start_current_update)

lemma sync_start_current_value:
  assumes "sync_start_current c"
  shows "m_subscriptions c = [] \<Longrightarrow> m_syncStart c = \<lparr>ss_timestamp = - 1, ss_height = - 1\<rparr>"
    and "m_subscriptions c \<noteq> [] \<Longrightarrow> ss_height (m_syncStart c) = Min (start_heights c)"
    and "m_subscriptions c \<noteq> [] \<Longrightarrow> ss_timestamp (m_syncStart c) = Min (start_timestamps c)"
proof -
  show "m_subscriptions c = [] \<Longrightarrow> m_syncStart c = \<lparr>ss_timestamp = - 1, ss_height = - 1\<rparr>"
    using assms by (simp add: sync_start_current_def)
  assume ne: "m_subscriptions c \<noteq> []"
  have h: "ss_height (m_syncStart c) = Min (insert (- 1) (start_heights c))"
    using assms by (simp add: sync_start_current_def fold_sync_step_height start_heights_def)
  have t: "ss_timestamp (m_syncStart c) = Min (insert (- 1) (start_timestamps c))"
    using assms by (simp add: sync_start_current_def fold_sync_step_timestamp start_timestamps_def)
  have "start_heights c \<noteq> {}" "finite (start_heights c)"
    "start_timestamps c \<noteq> {}" "finite (start_timestamps c)"
    using ne by (simp_all add: start_heights_def start_timestamps_def)
  then show "ss_height (m_syncStart c) = Min (start_heights c)"
    "ss_timestamp (m_syncStart c) = Min (start_timestamps c)"
    using h t by (simp_all add: min_max_word)
qed

subsection \<open>Applying sorted transactions\<close>

text \<open>The order on the pairs is the one of \<^verbatim>\<open>std::tie\<close>: the height decides, then the index.\<close>

lemma apply_order_lexicographic:
  "apply_order a \<le> apply_order b \<longleftrightarrow>
     height (tx_blockInfo a) < height (tx_blockInfo b) \<or>
     height (tx_blockInfo a) = height (tx_blockInfo b) \<and>
     transactionIndex (tx_blockInfo a) \<le> transactionIndex (tx_blockInfo b)"
  by (auto simp: apply_order_def less_eq_prod_def)

lemma add_transaction_order_append:
  "add_transaction_order (a @ b) = add_transaction_order a @ add_transaction_order b"
  by (induction a rule: add_transaction_order.induct) simp_all

lemma processOutputs_told:
  "processOutputs env blockInfo sub tx ts idxs = Inr (cn, up, sub') \<Longrightarrow>
     told_once blockInfo (k, sub) (k, sub')"
  by (auto simp: processOutputs_def told_once_def Let_def split: option.splits if_splits)

lemma processTransaction_loop_told:
  "processTransaction_loop env blockInfo tx info subs (b, cs, dn) = Inr (b', cs', subs') \<Longrightarrow>
     \<exists>new. subs' = dn @ new \<and> list_all2 (told_once blockInfo) subs new"
proof (induction subs arbitrary: b cs dn)
  case Nil
  then show ?case by simp
next
  case (Cons kv rest)
  from Cons.prems obtain cn up sub' where
    p: "processOutputs env blockInfo (snd kv) tx (outputs_at (info_outputs info) (fst kv))
          (info_globalIdxs info) = Inr (cn, up, sub')"
    and l: "processTransaction_loop env blockInfo tx info rest
              (b \<or> up, cs @ (if cn then [fst kv] else []), dn @ [(fst kv, sub')])
            = Inr (b', cs', subs')"
    by (auto split: sum.splits)
  from Cons.IH [OF l] obtain new where n: "subs' = (dn @ [(fst kv, sub')]) @ new"
    "list_all2 (told_once blockInfo) rest new" by blast
  from processOutputs_told [OF p, of "fst kv"] have "told_once blockInfo kv (fst kv, sub')" by simp
  with n have "subs' = dn @ ((fst kv, sub') # new)"
    "list_all2 (told_once blockInfo) (kv # rest) ((fst kv, sub') # new)" by simp_all
  then show ?case by blast
qed

lemma processTransaction_told:
  "processTransaction env c blockInfo tx info = Inr c' \<Longrightarrow>
     list_all2 (told_once blockInfo) (m_subscriptions c) (m_subscriptions c')"
  by (auto simp: processTransaction_def split: sum.splits dest!: processTransaction_loop_told)

lemma told_in_order_refl: "list_all2 (told_in_order S) subs subs"
  by (rule list_all2_refl) (simp add: told_in_order_def)

lemma told_compose:
  assumes "told_once blockInfo kv kv1" and "told_in_order S kv1 kv2"
    and "\<forall>y\<in>S. (height blockInfo, transactionIndex blockInfo) \<le> y"
  shows "told_in_order (insert (height blockInfo, transactionIndex blockInfo) S) kv kv2"
proof -
  from assms(1) obtain e1 where e1: "fst kv1 = fst kv" "history (snd kv1) = history (snd kv) @ e1"
    "add_transaction_order e1 = [] \<or>
     add_transaction_order e1 = [(height blockInfo, transactionIndex blockInfo)]"
    unfolding told_once_def by blast
  from assms(2) obtain e2 where e2: "fst kv2 = fst kv1" "history (snd kv2) = history (snd kv1) @ e2"
    "sorted (add_transaction_order e2)" "set (add_transaction_order e2) \<subseteq> S"
    unfolding told_in_order_def by blast
  have "history (snd kv2) = history (snd kv) @ (e1 @ e2)" using e1(2) e2(2) by simp
  moreover have "sorted (add_transaction_order (e1 @ e2))"
  proof (cases "add_transaction_order e1 = []")
    case True
    then show ?thesis using e2(3) by (simp add: add_transaction_order_append)
  next
    case False
    with e1(3) have "add_transaction_order e1 = [(height blockInfo, transactionIndex blockInfo)]"
      by simp
    moreover have "\<forall>y\<in>set (add_transaction_order e2).
                     (height blockInfo, transactionIndex blockInfo) \<le> y"
      using e2(4) assms(3) by blast
    ultimately show ?thesis using e2(3)
      by (simp add: add_transaction_order_append)
  qed
  moreover have "set (add_transaction_order (e1 @ e2))
      \<subseteq> insert (height blockInfo, transactionIndex blockInfo) S"
    using e1(3) e2(4) by (auto simp: add_transaction_order_append)
  ultimately show ?thesis unfolding told_in_order_def using e1(1) e2(1) by metis
qed

lemma list_all2_told_compose:
  assumes "list_all2 (told_once blockInfo) xs ys" and "list_all2 (told_in_order S) ys zs"
    and "\<forall>y\<in>S. (height blockInfo, transactionIndex blockInfo) \<le> y"
  shows "list_all2 (told_in_order (insert (height blockInfo, transactionIndex blockInfo) S)) xs zs"
proof -
  have len: "length xs = length ys" "length ys = length zs"
    using assms(1,2) by (simp_all add: list_all2_lengthD)
  show ?thesis
  proof (rule list_all2_all_nthI)
    show "length xs = length zs" using len by simp
  next
    fix n assume "n < length xs"
    then have "told_once blockInfo (xs ! n) (ys ! n)" "told_in_order S (ys ! n) (zs ! n)"
      using assms(1,2) len by (simp_all add: list_all2_nthD)
    then show "told_in_order (insert (height blockInfo, transactionIndex blockInfo) S) (xs ! n) (zs ! n)"
      using assms(3) by (rule told_compose)
  qed
qed

lemma apply_preprocessed_told:
  "sorted (map apply_order ts) \<Longrightarrow> apply_preprocessed env ts c = Inr c' \<Longrightarrow>
     list_all2 (told_in_order (set (map apply_order ts))) (m_subscriptions c) (m_subscriptions c')"
proof (induction ts arbitrary: c)
  case Nil
  then show ?case by (simp add: told_in_order_refl)
next
  case (Cons t ts)
  from Cons.prems(2) obtain c1 where
    p: "processTransaction env c (tx_blockInfo t) (tx_reader t) (tx_info t) = Inr c1"
    and r: "apply_preprocessed env ts c1 = Inr c'"
    by (auto split: sum.splits)
  from Cons.prems(1) have s: "sorted (map apply_order ts)"
    and le0: "\<forall>y\<in>set (map apply_order ts). apply_order t \<le> y"
    by simp_all
  have ao: "apply_order t = (height (tx_blockInfo t), transactionIndex (tx_blockInfo t))"
    by (simp add: apply_order_def)
  from le0 have le: "\<forall>y\<in>set (map apply_order ts).
               (height (tx_blockInfo t), transactionIndex (tx_blockInfo t)) \<le> y"
    unfolding ao .
  from list_all2_told_compose [OF processTransaction_told [OF p] Cons.IH [OF s r] le]
  show ?case unfolding list.map list.set ao .
qed

subsection \<open>The processing threads and the join\<close>

lemma worker_step_length:
  "worker_step env c w ph = Inr ph' \<Longrightarrow> length (workers ph') = length (workers ph)"
  by (auto simp: worker_step_def split: if_splits worker.splits list.splits sum.splits prod.splits)

lemma worker_step_failures_recorded:
  assumes "failures_recorded ph" and "worker_step env c w ph = Inr ph'"
  shows "failures_recorded ph'"
proof (cases "length (workers ph) \<le> w")
  case True
  with assms show ?thesis by (simp add: worker_step_def)
next
  case False
  then have w: "w < length (workers ph)" by simp
  from assms(1) have
    a1: "\<And>item ec. (item, ec) \<in> set (preprocess_results ph) \<Longrightarrow> ec \<noteq> success \<Longrightarrow>
           \<exists>i<length (workers ph). workers ph ! i = Finished ec"
    and a2: "\<And>i ec. i < length (workers ph) \<Longrightarrow> workers ph ! i = Finished ec \<Longrightarrow> ec \<noteq> success \<Longrightarrow>
           \<exists>item. (item, ec) \<in> set (preprocess_results ph)"
    unfolding failures_recorded_def by blast+
  show ?thesis
  proof (cases "workers ph ! w")
    case Ready
    with assms(2) w obtain x where
      p: "workers ph' = (workers ph)[w := x]" "preprocess_results ph' = preprocess_results ph"
        "x = Finished success \<or> (\<exists>item. x = Holding item)"
      by (auto simp: worker_step_def split: list.splits if_splits)
    show ?thesis unfolding failures_recorded_def
    proof (intro conjI allI impI)
      fix item ec assume "(item, ec) \<in> set (preprocess_results ph')" "ec \<noteq> success"
      with a1 p(2) obtain i where i: "i < length (workers ph)" "workers ph ! i = Finished ec" by auto
      with Ready have "i \<noteq> w" by auto
      with i p(1) show "\<exists>i<length (workers ph'). workers ph' ! i = Finished ec" by auto
    next
      fix i ec assume "i < length (workers ph')" "workers ph' ! i = Finished ec" "ec \<noteq> success"
      with p(1,3) w have "i < length (workers ph)" "workers ph ! i = Finished ec"
        by (auto simp: nth_list_update split: if_splits)
      with a2 \<open>ec \<noteq> success\<close> p(2) show "\<exists>item. (item, ec) \<in> set (preprocess_results ph')" by auto
    qed
  next
    case (Holding item)
    with assms(2) w obtain x e where
      p: "workers ph' = (workers ph)[w := x]"
        "preprocess_results ph' = preprocess_results ph @ [(item, e)]"
        "(e \<noteq> success \<and> x = Finished e) \<or> (e = success \<and> (\<exists>out. x = Produced out))"
      by (auto simp: worker_step_def split: sum.splits prod.splits if_splits)
    show ?thesis unfolding failures_recorded_def
    proof (intro conjI allI impI)
      fix item' ec assume h: "(item', ec) \<in> set (preprocess_results ph')" "ec \<noteq> success"
      show "\<exists>i<length (workers ph'). workers ph' ! i = Finished ec"
      proof (cases "(item', ec) \<in> set (preprocess_results ph)")
        case True
        with a1 h(2) obtain i where i: "i < length (workers ph)" "workers ph ! i = Finished ec" by auto
        with Holding have "i \<noteq> w" by auto
        with i p(1) show ?thesis by auto
      next
        case False
        with h p(2) have "ec = e" by auto
        with h(2) p(3) have "x = Finished ec" by auto
        with p(1) w show ?thesis by auto
      qed
    next
      fix i ec assume h: "i < length (workers ph')" "workers ph' ! i = Finished ec" "ec \<noteq> success"
      show "\<exists>item. (item, ec) \<in> set (preprocess_results ph')"
      proof (cases "i = w")
        case True
        with h p(1,3) w have "ec = e" by auto
        with p(2) show ?thesis by auto
      next
        case False
        with h p(1) have "i < length (workers ph)" "workers ph ! i = Finished ec" by auto
        with a2 h(3) p(2) show ?thesis by auto
      qed
    qed
  next
    case (Produced out)
    with assms(2) w have
      p: "workers ph' = (workers ph)[w := Ready]" "preprocess_results ph' = preprocess_results ph"
      by (auto simp: worker_step_def)
    show ?thesis unfolding failures_recorded_def
    proof (intro conjI allI impI)
      fix item ec assume "(item, ec) \<in> set (preprocess_results ph')" "ec \<noteq> success"
      with a1 p(2) obtain i where i: "i < length (workers ph)" "workers ph ! i = Finished ec" by auto
      with Produced have "i \<noteq> w" by auto
      with i p(1) show "\<exists>i<length (workers ph'). workers ph' ! i = Finished ec" by auto
    next
      fix i ec assume "i < length (workers ph')" "workers ph' ! i = Finished ec" "ec \<noteq> success"
      with p(1) w have "i < length (workers ph)" "workers ph ! i = Finished ec"
        by (auto simp: nth_list_update split: if_splits)
      with a2 \<open>ec \<noteq> success\<close> p(2) show "\<exists>item. (item, ec) \<in> set (preprocess_results ph')" by auto
    qed
  next
    case (Finished ec)
    with assms w show ?thesis by (simp add: worker_step_def)
  qed
qed

text \<open>What every step keeps, every interleaving and the join keep.\<close>

lemma run_schedule_keeps:
  assumes "\<And>env c w ph ph'. P ph \<Longrightarrow> worker_step env c w ph = Inr ph' \<Longrightarrow> P ph'"
  shows "P ph \<Longrightarrow> run_schedule env c ws ph = Inr ph' \<Longrightarrow> P ph'"
proof (induction ws arbitrary: ph)
  case Nil
  then show ?case by simp
next
  case (Cons w ws)
  from Cons.prems(2) obtain ph1 where s: "worker_step env c w ph = Inr ph1"
    and r: "run_schedule env c ws ph1 = Inr ph'" by (auto split: sum.splits)
  from Cons.IH [OF assms [OF Cons.prems(1) s] r] show ?case .
qed

lemma finish_worker_keeps:
  assumes "\<And>env c w ph ph'. P ph \<Longrightarrow> worker_step env c w ph = Inr ph' \<Longrightarrow> P ph'"
  shows "P ph \<Longrightarrow> finish_worker env c w ph = Inr ph' \<Longrightarrow> P ph'"
proof (induction env c w ph rule: finish_worker.induct)
  case (1 env c w ph)
  show ?case
  proof (cases "steps_left w ph = 0")
    case True
    with "1.prems"(2) have "ph' = ph" by (subst (asm) finish_worker.simps) simp
    with "1.prems"(1) show ?thesis by simp
  next
    case False
    with "1.prems"(2) obtain ph1 where s: "worker_step env c w ph = Inr ph1"
      and r: "finish_worker env c w ph1 = Inr ph'"
      by (subst (asm) finish_worker.simps) (auto split: sum.splits)
    from "1.IH" [OF False s assms [OF "1.prems"(1) s] r] show ?thesis .
  qed
qed

lemma finish_workers_keeps:
  assumes "\<And>env c w ph ph'. P ph \<Longrightarrow> worker_step env c w ph = Inr ph' \<Longrightarrow> P ph'"
  shows "P ph \<Longrightarrow> finish_workers env c ws ph = Inr ph' \<Longrightarrow> P ph'"
proof (induction ws arbitrary: ph)
  case Nil
  then show ?case by simp
next
  case (Cons w ws)
  from Cons.prems(2) obtain ph1 where s: "finish_worker env c w ph = Inr ph1"
    and r: "finish_workers env c ws ph1 = Inr ph'" by (auto split: sum.splits)
  from Cons.IH [OF finish_worker_keeps [of P, OF assms Cons.prems(1) s] r] show ?case by simp
qed

lemma processing_phase_keeps:
  assumes step: "\<And>env c w ph ph'. P ph \<Longrightarrow> worker_step env c w ph = Inr ph' \<Longrightarrow> P ph'"
    and init: "P \<lparr>inputQueue = pushed_items env c blocks startHeight count,
                 stopProcessing = False, seen = reg, logger = lg,
                 preprocessedTransactions = [],
                 workers = replicate (worker_count env) Ready,
                 preprocess_results = []\<rparr>"
    and run: "processing_phase env schedule blocks startHeight count (c, reg, lg) = Inr ph"
  shows "P ph"
proof -
  from run obtain ph1 where
    r: "run_schedule env c schedule
          \<lparr>inputQueue = pushed_items env c blocks startHeight count,
           stopProcessing = False, seen = reg, logger = lg,
           preprocessedTransactions = [],
           workers = replicate (worker_count env) Ready,
           preprocess_results = []\<rparr> = Inr ph1"
    and f: "finish_workers env c [0..<length (workers ph1)] ph1 = Inr ph"
    by (auto simp: processing_phase_def split: sum.splits)
  from finish_workers_keeps [of P, OF step run_schedule_keeps [of P, OF step init r] f]
  show ?thesis by simp
qed

lemma processing_phase_failures_recorded:
  "processing_phase env schedule blocks startHeight count (c, reg, lg) = Inr ph \<Longrightarrow>
     failures_recorded ph"
proof (rule processing_phase_keeps [of failures_recorded])
  show "failures_recorded ph' "
    if "failures_recorded ph0" "worker_step env' c' w ph0 = Inr ph'" for env' c' w ph0 ph'
    using that by (rule worker_step_failures_recorded)
  show "failures_recorded
          \<lparr>inputQueue = pushed_items env c blocks startHeight count,
           stopProcessing = False, seen = reg, logger = lg,
           preprocessedTransactions = [],
           workers = replicate (worker_count env) Ready,
           preprocess_results = []\<rparr>"
    by (simp add: failures_recorded_def)
qed

lemma processing_phase_workers:
  "processing_phase env schedule blocks startHeight count (c, reg, lg) = Inr ph \<Longrightarrow>
     length (workers ph) = worker_count env"
proof (rule processing_phase_keeps [of "\<lambda>ph. length (workers ph) = worker_count env"])
  show "length (workers ph') = worker_count env"
    if "length (workers ph0) = worker_count env" "worker_step env' c' w ph0 = Inr ph'"
    for env' c' w ph0 ph'
    using that worker_step_length [of env' c' w ph0 ph'] by simp
  show "length (workers
          \<lparr>inputQueue = pushed_items env c blocks startHeight count,
           stopProcessing = False, seen = reg, logger = lg,
           preprocessedTransactions = [],
           workers = replicate (worker_count env) Ready,
           preprocess_results = []\<rparr>) = worker_count env"
    by simp
qed

lemma join_workers_get_future:
  "join_workers e (get_future w # fs) =
     join_workers (if e = success \<and> worker_result w \<noteq> success then worker_result w else e) fs"
  by (simp add: get_future_def)

lemma join_workers_failed: "e \<noteq> success \<Longrightarrow> join_workers e (map get_future ws) = e"
  by (induction ws arbitrary: e) (simp_all add: join_workers_get_future del: join_workers.simps(2))

lemma join_workers_first:
  "join_workers success (map get_future ws) \<noteq> success \<Longrightarrow>
     \<exists>i<length ws. worker_result (ws ! i) = join_workers success (map get_future ws) \<and>
                   (\<forall>j<i. worker_result (ws ! j) = success)"
proof (induction ws)
  case Nil
  then show ?case by simp
next
  case (Cons w ws)
  show ?case
  proof (cases "worker_result w = success")
    case True
    then have eq: "join_workers success (map get_future (w # ws))
                     = join_workers success (map get_future ws)"
      by (simp add: join_workers_get_future del: join_workers.simps(2))
    with Cons obtain i where i: "i < length ws"
      "worker_result (ws ! i) = join_workers success (map get_future ws)"
      "\<forall>j<i. worker_result (ws ! j) = success" by auto
    have "\<forall>j<Suc i. worker_result ((w # ws) ! j) = success"
      using i(3) True by (auto simp: less_Suc_eq_0_disj)
    with i(1,2) eq show ?thesis by (intro exI [of _ "Suc i"]) simp
  next
    case False
    then have "join_workers success (map get_future (w # ws)) = worker_result w"
      by (simp add: join_workers_get_future join_workers_failed del: join_workers.simps(2))
    then show ?thesis by (intro exI [of _ 0]) simp
  qed
qed

lemma join_workers_success:
  "join_workers success (map get_future ws) = success \<Longrightarrow> \<forall>w\<in>set ws. worker_result w = success"
proof (induction ws)
  case Nil
  then show ?case by simp
next
  case (Cons w ws)
  show ?case
  proof (cases "worker_result w = success")
    case True
    with Cons show ?thesis
      by (simp add: join_workers_get_future del: join_workers.simps(2))
  next
    case False
    then have "join_workers success (map get_future (w # ws)) = worker_result w"
      by (simp add: join_workers_get_future join_workers_failed del: join_workers.simps(2))
    with Cons.prems False show ?thesis by simp
  qed
qed

lemma worker_step_Finished_stable:
  assumes "v < length (workers ph) \<and> workers ph ! v = Finished ec"
    and "worker_step env c w ph = Inr ph'"
  shows "v < length (workers ph') \<and> workers ph' ! v = Finished ec"
proof (cases "w = v \<or> length (workers ph) \<le> w")
  case True
  with assms show ?thesis by (auto simp: worker_step_def)
next
  case False
  then have "w \<noteq> v" "w < length (workers ph)" by auto
  with assms show ?thesis
    by (auto simp: worker_step_def split: worker.splits list.splits if_splits sum.splits prod.splits)
qed

lemma finish_workers_Finished_stable:
  assumes "v < length (workers ph) \<and> workers ph ! v = Finished ec"
    and "finish_workers env c ws ph = Inr ph'"
  shows "v < length (workers ph') \<and> workers ph' ! v = Finished ec"
proof (rule finish_workers_keeps
    [where P = "\<lambda>p. v < length (workers p) \<and> workers p ! v = Finished ec", OF _ assms])
  show "v < length (workers q') \<and> workers q' ! v = Finished ec"
    if "v < length (workers q) \<and> workers q ! v = Finished ec"
      and "worker_step env' c' w q = Inr q'" for env' c' w q q'
    using that by (rule worker_step_Finished_stable)
qed

lemma finish_worker_length:
  assumes "finish_worker env c w ph = Inr ph'"
  shows "length (workers ph') = length (workers ph)"
proof (rule finish_worker_keeps
    [where P = "\<lambda>p. length (workers p) = length (workers ph)", OF _ _ assms])
  show "length (workers q') = length (workers ph)"
    if "length (workers q) = length (workers ph)"
      and "worker_step env' c' v q = Inr q'" for env' c' v q q'
    using that worker_step_length [of env' c' v q q'] by simp
  show "length (workers ph) = length (workers ph)" by simp
qed

lemma finish_workers_length:
  "finish_workers env c ws ph = Inr ph' \<Longrightarrow> length (workers ph') = length (workers ph)"
proof (induction ws arbitrary: ph)
  case Nil
  then show ?case by simp
next
  case (Cons w ws)
  from Cons.prems obtain ph1 where s: "finish_worker env c w ph = Inr ph1"
    and r: "finish_workers env c ws ph1 = Inr ph'" by (auto split: sum.splits)
  from Cons.IH [OF r] finish_worker_length [OF s] show ?case by simp
qed

lemma finish_worker_done:
  "finish_worker env c w ph = Inr ph' \<Longrightarrow> steps_left w ph' = 0"
proof (induction env c w ph rule: finish_worker.induct)
  case (1 env c w ph)
  show ?case
  proof (cases "steps_left w ph = 0")
    case True
    with "1.prems" have "ph' = ph" by (subst (asm) finish_worker.simps) simp
    with True show ?thesis by simp
  next
    case False
    with "1.prems" obtain ph1 where s: "worker_step env c w ph = Inr ph1"
      and r: "finish_worker env c w ph1 = Inr ph'"
      by (subst (asm) finish_worker.simps) (auto split: sum.splits)
    from "1.IH" [OF False s r] show ?thesis .
  qed
qed

lemma steps_left_0:
  "steps_left w ph = 0 \<Longrightarrow> w < length (workers ph) \<Longrightarrow> \<exists>ec. workers ph ! w = Finished ec"
  by (auto simp: steps_left_def split: worker.splits if_splits)

lemma finish_workers_done:
  "finish_workers env c ws ph = Inr ph' \<Longrightarrow> w \<in> set ws \<Longrightarrow> w < length (workers ph) \<Longrightarrow>
     \<exists>ec. w < length (workers ph') \<and> workers ph' ! w = Finished ec"
proof (induction ws arbitrary: ph)
  case Nil
  then show ?case by simp
next
  case (Cons v ws)
  from Cons.prems(1) obtain ph1 where s: "finish_worker env c v ph = Inr ph1"
    and r: "finish_workers env c ws ph1 = Inr ph'" by (auto split: sum.splits)
  have len: "length (workers ph1) = length (workers ph)"
    using s by (rule finish_worker_length)
  show ?case
  proof (cases "w = v")
    case True
    from finish_worker_done [OF s] True Cons.prems(3) len
    obtain ec where "w < length (workers ph1) \<and> workers ph1 ! w = Finished ec"
      using steps_left_0 [of w ph1] by auto
    from finish_workers_Finished_stable [OF this r]
    show ?thesis by blast
  next
    case False
    with Cons.prems(2) have "w \<in> set ws" by simp
    from Cons.IH [OF r this] Cons.prems(3) len show ?thesis by simp
  qed
qed

text \<open>At the join every thread has returned.\<close>

lemma processing_phase_all_finished:
  assumes "processing_phase env schedule blocks startHeight count (c, reg, lg) = Inr ph"
    and "w < length (workers ph)"
  shows "\<exists>ec. workers ph ! w = Finished ec"
proof -
  from assms(1) obtain ph1 where
    f: "finish_workers env c [0..<length (workers ph1)] ph1 = Inr ph"
    by (auto simp: processing_phase_def split: sum.splits)
  have len: "length (workers ph) = length (workers ph1)"
    using f by (rule finish_workers_length)
  with assms(2) have "w \<in> set [0..<length (workers ph1)]" "w < length (workers ph1)" by simp_all
  from finish_workers_done [OF f this] show ?thesis by blast
qed

subsection \<open>Evaluating subscription calls\<close>

lemmas subscription_eval =
  apply_calls_def addSubscription_def removeSubscription_def updateSyncStart_def
  new_TransfersConsumer_def new_TransfersSubscription_def getSyncStart_def Let_def
  example_calls_def example_account_def

subsection \<open>The registry through a batch\<close>

lemma registry_le_refl: "registry_le r r"
  by (simp add: registry_le_def)

lemma registry_le_trans: "registry_le a b \<Longrightarrow> registry_le b c \<Longrightarrow> registry_le a c"
  by (auto simp: registry_le_def)

lemma createTransfers_registry_grows:
  "createTransfers env account blockInfo tx outputs globalIdxs (ts, reg, lg) = Inr (ec, ts', reg', lg')
     \<Longrightarrow> registry_le reg reg'"
  by (auto simp: createTransfers_def registry_le_def split: flow.splits)

lemma preprocessOutputs_loop_registry_grows:
  "preprocessOutputs_loop env c blockInfo tx hits (info, reg, lg) = Inr (ec, info', reg', lg')
     \<Longrightarrow> registry_le reg reg'"
proof (induction hits arbitrary: info reg lg)
  case Nil
  then show ?case by (simp add: registry_le_refl)
next
  case (Cons kv rest)
  show ?case
  proof (cases "map_of (m_subscriptions c) (fst kv)")
    case None
    with Cons.prems have "preprocessOutputs_loop env c blockInfo tx rest (info, reg, lg)
                            = Inr (ec, info', reg', lg')" by simp
    then show ?thesis by (rule Cons.IH)
  next
    case (Some sub)
    with Cons.prems obtain e1 ts1 reg1 lg1 where
      ct: "createTransfers env (keys sub) blockInfo tx (snd kv) (info_globalIdxs info)
             (outputs_at (info_outputs info) (fst kv), reg, lg) = Inr (e1, ts1, reg1, lg1)"
      by (auto split: sum.splits)
    note g1 = createTransfers_registry_grows [OF ct]
    show ?thesis
    proof (cases "e1 = success")
      case True
      with Cons.prems Some ct have
        "preprocessOutputs_loop env c blockInfo tx rest
           (info\<lparr>info_outputs := assign_at (fst kv) ts1 (info_outputs info)\<rparr>, reg1, lg1)
         = Inr (ec, info', reg', lg')" by (simp add: Let_def)
      from Cons.IH [OF this] g1 show ?thesis by (rule registry_le_trans [rotated])
    next
      case False
      with Cons.prems Some ct have "reg' = reg1" by (simp add: Let_def)
      with g1 show ?thesis by simp
    qed
  qed
qed

lemma preprocessOutputs_registry_grows:
  "preprocessOutputs env c blockInfo tx (info, reg, lg) = Inr (ec, info', reg', lg')
     \<Longrightarrow> registry_le reg reg'"
  by (auto simp: preprocessOutputs_def Let_def registry_le_refl
      split: if_splits prod.splits dest: preprocessOutputs_loop_registry_grows)

lemma worker_step_registry_grows:
  assumes "registry_le reg (seen ph)" and "worker_step env c w ph = Inr ph'"
  shows "registry_le reg (seen ph')"
proof (cases "length (workers ph) \<le> w")
  case True
  with assms show ?thesis by (simp add: worker_step_def)
next
  case False
  show ?thesis
  proof (cases "workers ph ! w")
    case (Holding item)
    with assms(2) False obtain ec info reg1 lg1 where
      p: "preprocessOutputs env c (tx_blockInfo item) (tx_reader item)
            (\<lparr>info_globalIdxs = [], info_outputs = []\<rparr>, seen ph, logger ph) = Inr (ec, info, reg1, lg1)"
      and s: "seen ph' = reg1"
      by (auto simp: worker_step_def split: sum.splits prod.splits if_splits)
    from registry_le_trans [OF assms(1) preprocessOutputs_registry_grows [OF p]] s
    show ?thesis by simp
  next
    case Ready
    with assms False show ?thesis
      by (auto simp: worker_step_def split: list.splits if_splits)
  next
    case (Produced out)
    with assms False show ?thesis by (auto simp: worker_step_def)
  next
    case (Finished ec)
    with assms False show ?thesis by (auto simp: worker_step_def)
  qed
qed

text \<open>The registry a batch leaves behind holds everything the registry before it held.\<close>

lemma onNewBlocks_registry_grows:
  assumes "onNewBlocks env schedule blocks startHeight count (c, reg, lg) = Inr (r, c', reg', lg')"
  shows "registry_le reg reg'"
proof -
  from assms obtain ph where
    ph: "processing_phase env schedule blocks startHeight count (c, reg, lg) = Inr ph"
    by (cases "processing_phase env schedule blocks startHeight count (c, reg, lg)")
       (auto simp: onNewBlocks_def split: if_splits)
  have "registry_le reg (seen ph)"
  proof (rule processing_phase_keeps [where P = "\<lambda>p. registry_le reg (seen p)", OF _ _ ph])
    show "registry_le reg (seen q')"
      if "registry_le reg (seen q)" "worker_step env' c' w q = Inr q'" for env' c' w q q'
      using that by (rule worker_step_registry_grows)
    show "registry_le reg (seen
          \<lparr>inputQueue = pushed_items env c blocks startHeight count,
           stopProcessing = False, seen = reg, logger = lg,
           preprocessedTransactions = [],
           workers = replicate (worker_count env) Ready,
           preprocess_results = []\<rparr>)" by (simp add: registry_le_refl)
  qed
  moreover have "reg' = seen ph"
    using assms ph by (auto simp: onNewBlocks_def Let_def split: if_splits sum.splits)
  ultimately show ?thesis by simp
qed

subsection \<open>An empty batch\<close>

lemma worker_step_nothing_to_preprocess:
  assumes "nothing_to_preprocess ph" and "worker_step env c w ph = Inr ph'"
  shows "nothing_to_preprocess ph'"
proof (cases "length (workers ph) \<le> w")
  case True
  with assms show ?thesis by (simp add: worker_step_def)
next
  case False
  then have w: "w < length (workers ph)" by simp
  from assms(1) have q: "inputQueue ph = []" "preprocess_results ph = []"
    and h: "\<And>i item. i < length (workers ph) \<Longrightarrow> workers ph ! i \<noteq> Holding item"
    unfolding nothing_to_preprocess_def by blast+
  show ?thesis
  proof (cases "workers ph ! w")
    case Ready
    with assms(2) w q have "ph' = ph\<lparr>workers := (workers ph)[w := Finished success]\<rparr>"
      by (simp add: worker_step_def)
    with q h w show ?thesis
      by (auto simp: nothing_to_preprocess_def nth_list_update)
  next
    case (Holding item)
    with h [OF w, of item] show ?thesis by simp
  next
    case (Produced out)
    with assms(2) w have
      "ph' = ph\<lparr>preprocessedTransactions := preprocessedTransactions ph @ [out],
                workers := (workers ph)[w := Ready]\<rparr>"
      by (simp add: worker_step_def)
    with q h w show ?thesis
      by (auto simp: nothing_to_preprocess_def nth_list_update)
  next
    case (Finished ec)
    with assms w show ?thesis by (simp add: worker_step_def)
  qed
qed

text \<open>A batch without blocks has nothing to preprocess.\<close>

lemma processing_phase_no_blocks:
  assumes "processing_phase env schedule blocks startHeight 0 (c, reg, lg) = Inr ph"
  shows "preprocess_results ph = []"
proof -
  have "nothing_to_preprocess ph"
  proof (rule processing_phase_keeps [where P = nothing_to_preprocess, OF _ _ assms])
    show "nothing_to_preprocess q'"
      if "nothing_to_preprocess q" "worker_step env' c' w q = Inr q'" for env' c' w q q'
      using that by (rule worker_step_nothing_to_preprocess)
    show "nothing_to_preprocess
          \<lparr>inputQueue = pushed_items env c blocks startHeight 0,
           stopProcessing = False, seen = reg, logger = lg,
           preprocessedTransactions = [],
           workers = replicate (worker_count env) Ready,
           preprocess_results = []\<rparr>"
      by (simp add: nothing_to_preprocess_def pushed_items_def)
  qed
  then show ?thesis by (simp add: nothing_to_preprocess_def)
qed


section \<open>The verified properties\<close>

subsection \<open>The transfer builder: C1, C5, C9, C10\<close>

text \<open>
  C1. The specification says: when the hash is not yet seen and an owned output key is
  already in \<^verbatim>\<open>public_keys_seen\<close> (or twice in \<^verbatim>\<open>temp_keys\<close>), the call returns
  success and produces no transfers at all, also not for the outputs examined before the
  colliding one. The code returns success from inside the loop and leaves in the caller's
  vector every transfer it has appended so far. Here the transaction with hash 7 has two
  owned Key outputs, and the key of the second one was registered by transaction 9: the
  call returns success, logs the duplicate, leaves the registry alone, and hands back
  the transfer of the first output.
\<close>

theorem createTransfers_drop_keeps_earlier_transfers:
  "createTransfers example_env example_account (block_info_at 5 0) example_tx [0, 1] [40, 41]
       ([], \<lparr>transactions_hash_seen = {9}, public_keys_seen = {104}\<rparr>, [])
     = Inr (success,
            [\<lparr>outputType = Key, transactionPublicKey = 1, outputInTransaction = 0,
              globalOutputIndex = 40, amount = 10, detail = KeyDetail 103 300\<rparr>],
            \<lparr>transactions_hash_seen = {9}, public_keys_seen = {104}\<rparr>,
            [DuplicateOutputKey 7])"
  by (simp add: createTransfers_eval)

text \<open>
  The same registry met by \<^verbatim>\<open>onNewBlocks\<close>: the batch is accepted, and the subscription is
  told of the transaction with the transfer of its first output alone.
\<close>

lemma onNewBlocks_hands_on_earlier_transfers:
  "onNewBlocks example_env []
       [\<lparr>blockHash = 1000, block = Some \<lparr>block_timestamp = 50\<rparr>, transactions = [example_tx]\<rparr>]
       10 1
       (example_consumer_told [] [], \<lparr>transactions_hash_seen = {9}, public_keys_seen = {104}\<rparr>, [])
     = Inr (True,
            example_consumer_told
              [AddTransaction \<lparr>height = 10, timestamp = 50, transactionIndex = 0\<rparr> example_tx
                 [\<lparr>outputType = Key, transactionPublicKey = 1, outputInTransaction = 0,
                   globalOutputIndex = 40, amount = 10, detail = KeyDetail 103 300\<rparr>],
               AdvanceHeight 10]
              [OnBlocksAdded [1000], OnTransactionUpdated 7 [100]],
            \<lparr>transactions_hash_seen = {9}, public_keys_seen = {104}\<rparr>,
            [DuplicateOutputKey 7])"
  by code_simp

text \<open>
  C5. Whenever \<^verbatim>\<open>createTransfers\<close> returns: if the hash was not seen before and the call
  completes with success without logging a duplicate (no drop), the registry gains
  exactly the hash and the output keys of all owned outputs (the staged \<^verbatim>\<open>temp_keys\<close>);
  if a duplicate is logged (the drop fires), the call returns success and the registry is
  unchanged; and both \<^verbatim>\<open>createTransfers\<close> and \<^verbatim>\<open>addPublicKeysSeen\<close>, the only writers
  of the registry, only ever enlarge its two sets.
\<close>

theorem createTransfers_registry_merge:
  assumes call: "createTransfers env account blockInfo tx outputs globalIdxs (ts, reg, lg)
                   = Inr (ec, ts', reg', lg')"
  shows "(getTransactionHash tx \<notin> transactions_hash_seen reg \<and> ec = success \<and> lg' = lg \<longrightarrow>
            transactions_hash_seen reg' = insert (getTransactionHash tx) (transactions_hash_seen reg) \<and>
            public_keys_seen reg' = public_keys_seen reg \<union> set (owned_keys tx outputs)) \<and>
         (lg' \<noteq> lg \<longrightarrow> ec = success \<and> reg' = reg) \<and>
         transactions_hash_seen reg \<subseteq> transactions_hash_seen reg' \<and>
         public_keys_seen reg \<subseteq> public_keys_seen reg' \<and>
         transactions_hash_seen reg \<subseteq> transactions_hash_seen (addPublicKeysSeen h k reg) \<and>
         public_keys_seen reg \<subseteq> public_keys_seen (addPublicKeysSeen h k reg)"
  using call
proof (cases rule: createTransfers_Inr_cases)
  case (completed st)
  note A = createTransfers_loop_Continue [OF completed(1)]
  have "lg' = lg" using A completed(4) by simp
  moreover have "getTransactionHash tx \<notin> transactions_hash_seen reg \<Longrightarrow>
      public_keys_seen reg' = public_keys_seen reg \<union> set (owned_keys tx outputs)"
    using A completed(5) by simp
  moreover have "transactions_hash_seen reg' =
      insert (getTransactionHash tx) (transactions_hash_seen reg)"
    using completed(5) by simp
  moreover have "public_keys_seen reg \<subseteq> public_keys_seen reg'" using completed(5) by auto
  ultimately show ?thesis by (auto simp: addPublicKeysSeen_def)
next
  case (returned st)
  note R = createTransfers_loop_Return_facts [OF returned(1)]
  have "lg' \<noteq> lg \<Longrightarrow> ec = success" using R(1,3) returned(3) by auto
  moreover have "ec = success \<Longrightarrow> lg' \<noteq> lg" using R(2) returned(3) by auto
  ultimately show ?thesis using returned(4) by (auto simp: addPublicKeysSeen_def)
qed

theorem createTransfers_registry_merge_witness:
  "createTransfers example_env example_account (block_info_at 5 0) example_tx [0, 1] [40, 41]
       ([], \<lparr>transactions_hash_seen = {9}, public_keys_seen = {77}\<rparr>, [])
     = Inr (success,
            [\<lparr>outputType = Key, transactionPublicKey = 1, outputInTransaction = 0,
              globalOutputIndex = 40, amount = 10, detail = KeyDetail 103 300\<rparr>,
             \<lparr>outputType = Key, transactionPublicKey = 1, outputInTransaction = 1,
              globalOutputIndex = 41, amount = 20, detail = KeyDetail 104 301\<rparr>],
            \<lparr>transactions_hash_seen = {7, 9}, public_keys_seen = {77, 103, 104}\<rparr>, []) \<and>
   getTransactionHash example_tx \<notin> {9 :: nat} \<and>
   {7, 9} = insert (getTransactionHash example_tx) {9 :: nat} \<and>
   {77, 103, 104} = {77 :: nat} \<union> set (owned_keys example_tx [0, 1]) \<and>
   createTransfers example_env example_account (block_info_at 5 0) example_tx [1, 0] [40, 41]
       ([], \<lparr>transactions_hash_seen = {9}, public_keys_seen = {103}\<rparr>, [])
     = Inr (success,
            [\<lparr>outputType = Key, transactionPublicKey = 1, outputInTransaction = 1,
              globalOutputIndex = 41, amount = 20, detail = KeyDetail 104 301\<rparr>],
            \<lparr>transactions_hash_seen = {9}, public_keys_seen = {103}\<rparr>,
            [DuplicateOutputKey 7]) \<and>
   [DuplicateOutputKey 7] \<noteq> []"
proof -
  have h1: "createTransfers example_env example_account (block_info_at 5 0) example_tx [0, 1] [40, 41]
       ([], \<lparr>transactions_hash_seen = {9}, public_keys_seen = {77}\<rparr>, [])
     = Inr (success,
            [\<lparr>outputType = Key, transactionPublicKey = 1, outputInTransaction = 0,
              globalOutputIndex = 40, amount = 10, detail = KeyDetail 103 300\<rparr>,
             \<lparr>outputType = Key, transactionPublicKey = 1, outputInTransaction = 1,
              globalOutputIndex = 41, amount = 20, detail = KeyDetail 104 301\<rparr>],
            \<lparr>transactions_hash_seen = {7, 9}, public_keys_seen = {77, 103, 104}\<rparr>, [])"
    by (simp add: createTransfers_eval insert_commute)
  have h2: "createTransfers example_env example_account (block_info_at 5 0) example_tx [1, 0] [40, 41]
       ([], \<lparr>transactions_hash_seen = {9}, public_keys_seen = {103}\<rparr>, [])
     = Inr (success,
            [\<lparr>outputType = Key, transactionPublicKey = 1, outputInTransaction = 1,
              globalOutputIndex = 41, amount = 20, detail = KeyDetail 104 301\<rparr>],
            \<lparr>transactions_hash_seen = {9}, public_keys_seen = {103}\<rparr>,
            [DuplicateOutputKey 7])"
    by (simp add: createTransfers_eval)
  have h3: "getTransactionHash example_tx \<notin> {9 :: nat}" by (simp add: example_tx_def)
  from createTransfers_registry_merge [OF h1] h3 have
    "{7, 9} = insert (getTransactionHash example_tx) {9 :: nat} \<and>
     {77, 103, 104} = {77 :: nat} \<union> set (owned_keys example_tx [0, 1])" by simp
  moreover from createTransfers_registry_merge [OF h2] have "[DuplicateOutputKey 7] \<noteq> []" by simp
  ultimately show ?thesis using h1 h2 h3 by blast
qed

text \<open>
  C9. Every transfer that a returning call of \<^verbatim>\<open>createTransfers\<close> appends belongs to an
  owned index; for a block info at the unconfirmed height its global output index is the
  unconfirmed sentinel, and for a confirmed one it is \<^verbatim>\<open>globalIdxs[idx]\<close>, read inside
  the vector, for the transfer's own output index. When the loop reaches an owned index
  that is not below the output count, the call returns \<^verbatim>\<open>argument_out_of_domain\<close>;
  so a returning call whose owned indices include such an index returns
  \<^verbatim>\<open>argument_out_of_domain\<close>, unless a duplicate key met before it has ended the call.
\<close>

theorem createTransfers_global_output_index:
  "(createTransfers env account blockInfo tx outputs globalIdxs (ts, reg, lg)
      = Inr (ec, ts', reg', lg') \<longrightarrow>
      (\<exists>new. ts' = ts @ new \<and> set (map outputInTransaction new) \<subseteq> set outputs \<and>
         (\<forall>t\<in>set new.
            (height blockInfo = WALLET_UNCONFIRMED_TRANSACTION_HEIGHT env \<longrightarrow>
               globalOutputIndex t = UNCONFIRMED_TRANSACTION_GLOBAL_OUTPUT_INDEX env) \<and>
            (height blockInfo \<noteq> WALLET_UNCONFIRMED_TRANSACTION_HEIGHT env \<longrightarrow>
               unat (outputInTransaction t) < length globalIdxs \<and>
               globalOutputIndex t = globalIdxs ! unat (outputInTransaction t))))) \<and>
   (createTransfers_loop env reg account blockInfo tx globalIdxs pre
        \<lparr>transfers = ts, temp_keys = [], logged = lg\<rparr> = Continue st \<and>
    getOutputCount tx \<le> unat idx \<longrightarrow>
      createTransfers env account blockInfo tx (pre @ idx # post) globalIdxs (ts, reg, lg)
        = Inr (argument_out_of_domain, transfers st, reg, logged st)) \<and>
   (createTransfers env account blockInfo tx outputs globalIdxs (ts, reg, lg)
      = Inr (ec, ts', reg', lg') \<and>
    (\<exists>idx\<in>set outputs. getOutputCount tx \<le> unat idx) \<longrightarrow>
      ec = argument_out_of_domain \<or> (ec = success \<and> lg' \<noteq> lg))"
proof (intro conjI impI)
  assume call: "createTransfers env account blockInfo tx outputs globalIdxs (ts, reg, lg)
      = Inr (ec, ts', reg', lg')"
  have "\<exists>new. ts' = ts @ new \<and> set (map outputInTransaction new) \<subseteq> set outputs \<and>
         (\<forall>t\<in>set new. global_index_of env blockInfo globalIdxs (outputInTransaction t)
                         = Some (globalOutputIndex t))"
    using call
  proof (cases rule: createTransfers_Inr_cases)
    case (completed st)
    from createTransfers_loop_Continue [OF completed(1)] obtain new where
      "transfers st = ts @ new" "map outputInTransaction new = filter (addressable tx) outputs"
      "\<forall>t\<in>set new. global_index_of env blockInfo globalIdxs (outputInTransaction t)
                         = Some (globalOutputIndex t)" by auto
    moreover from this(2) have "set (map outputInTransaction new) \<subseteq> set outputs" by auto
    ultimately show ?thesis using completed(3) by blast
  next
    case (returned st)
    from createTransfers_loop_Return_facts(4) [OF returned(1)] returned(2) show ?thesis by simp
  qed
  then obtain new where n: "ts' = ts @ new" "set (map outputInTransaction new) \<subseteq> set outputs"
    "\<forall>t\<in>set new. global_index_of env blockInfo globalIdxs (outputInTransaction t)
                         = Some (globalOutputIndex t)" by blast
  from n(3) have "\<forall>t\<in>set new.
            (height blockInfo = WALLET_UNCONFIRMED_TRANSACTION_HEIGHT env \<longrightarrow>
               globalOutputIndex t = UNCONFIRMED_TRANSACTION_GLOBAL_OUTPUT_INDEX env) \<and>
            (height blockInfo \<noteq> WALLET_UNCONFIRMED_TRANSACTION_HEIGHT env \<longrightarrow>
               unat (outputInTransaction t) < length globalIdxs \<and>
               globalOutputIndex t = globalIdxs ! unat (outputInTransaction t))"
    by (auto simp: global_index_of_def split: if_splits)
  with n(1,2) show "\<exists>new. ts' = ts @ new \<and> set (map outputInTransaction new) \<subseteq> set outputs \<and>
         (\<forall>t\<in>set new.
            (height blockInfo = WALLET_UNCONFIRMED_TRANSACTION_HEIGHT env \<longrightarrow>
               globalOutputIndex t = UNCONFIRMED_TRANSACTION_GLOBAL_OUTPUT_INDEX env) \<and>
            (height blockInfo \<noteq> WALLET_UNCONFIRMED_TRANSACTION_HEIGHT env \<longrightarrow>
               unat (outputInTransaction t) < length globalIdxs \<and>
               globalOutputIndex t = globalIdxs ! unat (outputInTransaction t)))" by blast
next
  assume a: "createTransfers_loop env reg account blockInfo tx globalIdxs pre
        \<lparr>transfers = ts, temp_keys = [], logged = lg\<rparr> = Continue st \<and>
    getOutputCount tx \<le> unat idx"
  then have "createTransfers_loop env reg account blockInfo tx globalIdxs (pre @ idx # post)
        \<lparr>transfers = ts, temp_keys = [], logged = lg\<rparr> = Return argument_out_of_domain st"
    by (simp add: createTransfers_loop_append createTransfers_body_def)
  then show "createTransfers env account blockInfo tx (pre @ idx # post) globalIdxs (ts, reg, lg)
        = Inr (argument_out_of_domain, transfers st, reg, logged st)"
    by (simp add: createTransfers_def)
next
  assume a: "createTransfers env account blockInfo tx outputs globalIdxs (ts, reg, lg)
      = Inr (ec, ts', reg', lg') \<and>
    (\<exists>idx\<in>set outputs. getOutputCount tx \<le> unat idx)"
  then have call: "createTransfers env account blockInfo tx outputs globalIdxs (ts, reg, lg)
      = Inr (ec, ts', reg', lg')"
    and out: "\<exists>idx\<in>set outputs. getOutputCount tx \<le> unat idx" by simp_all
  from call show "ec = argument_out_of_domain \<or> (ec = success \<and> lg' \<noteq> lg)"
  proof (cases rule: createTransfers_Inr_cases)
    case (completed st)
    from createTransfers_loop_Continue [OF completed(1)] out show ?thesis by (auto simp: not_le)
  next
    case (returned st)
    note R = createTransfers_loop_Return_facts [OF returned(1)]
    from R(1,2) returned(3) show ?thesis by auto
  qed
qed

theorem createTransfers_global_output_index_witness:
  "createTransfers example_env example_account (block_info_at 0xFFFFFFFF 0) example_tx [1] []
       ([], \<lparr>transactions_hash_seen = {}, public_keys_seen = {}\<rparr>, [])
     = Inr (success,
            [\<lparr>outputType = Key, transactionPublicKey = 1, outputInTransaction = 1,
              globalOutputIndex = 0xFFFFFFFF, amount = 20, detail = KeyDetail 104 301\<rparr>],
            \<lparr>transactions_hash_seen = {7}, public_keys_seen = {104}\<rparr>, []) \<and>
   createTransfers example_env example_account (block_info_at 5 0) example_tx [1] [40, 41]
       ([], \<lparr>transactions_hash_seen = {}, public_keys_seen = {}\<rparr>, [])
     = Inr (success,
            [\<lparr>outputType = Key, transactionPublicKey = 1, outputInTransaction = 1,
              globalOutputIndex = [40, 41] ! unat (1 :: u32), amount = 20,
              detail = KeyDetail 104 301\<rparr>],
            \<lparr>transactions_hash_seen = {7}, public_keys_seen = {104}\<rparr>, []) \<and>
   createTransfers_loop example_env \<lparr>transactions_hash_seen = {}, public_keys_seen = {}\<rparr>
       example_account (block_info_at 5 0) example_tx [40, 41] [0]
       \<lparr>transfers = [], temp_keys = [], logged = []\<rparr>
     = Continue \<lparr>transfers = [\<lparr>outputType = Key, transactionPublicKey = 1,
                     outputInTransaction = 0, globalOutputIndex = 40, amount = 10,
                     detail = KeyDetail 103 300\<rparr>], temp_keys = [103], logged = []\<rparr> \<and>
   getOutputCount example_tx \<le> unat (2 :: u32) \<and>
   createTransfers example_env example_account (block_info_at 5 0) example_tx ([0] @ 2 # [1])
       [40, 41] ([], \<lparr>transactions_hash_seen = {}, public_keys_seen = {}\<rparr>, [])
     = Inr (argument_out_of_domain,
            [\<lparr>outputType = Key, transactionPublicKey = 1, outputInTransaction = 0,
              globalOutputIndex = 40, amount = 10, detail = KeyDetail 103 300\<rparr>],
            \<lparr>transactions_hash_seen = {}, public_keys_seen = {}\<rparr>, [])"
proof -
  have h1: "createTransfers_loop example_env \<lparr>transactions_hash_seen = {}, public_keys_seen = {}\<rparr>
       example_account (block_info_at 5 0) example_tx [40, 41] [0]
       \<lparr>transfers = [], temp_keys = [], logged = []\<rparr>
     = Continue \<lparr>transfers = [\<lparr>outputType = Key, transactionPublicKey = 1,
                     outputInTransaction = 0, globalOutputIndex = 40, amount = 10,
                     detail = KeyDetail 103 300\<rparr>], temp_keys = [103], logged = []\<rparr>"
    by (simp add: createTransfers_eval)
  have h2: "getOutputCount example_tx \<le> unat (2 :: u32)"
    by (simp add: createTransfers_eval)
  have h3: "createTransfers example_env example_account (block_info_at 0xFFFFFFFF 0) example_tx [1] []
       ([], \<lparr>transactions_hash_seen = {}, public_keys_seen = {}\<rparr>, [])
     = Inr (success,
            [\<lparr>outputType = Key, transactionPublicKey = 1, outputInTransaction = 1,
              globalOutputIndex = 0xFFFFFFFF, amount = 20, detail = KeyDetail 104 301\<rparr>],
            \<lparr>transactions_hash_seen = {7}, public_keys_seen = {104}\<rparr>, [])"
    by (simp add: createTransfers_eval)
  have h4: "createTransfers example_env example_account (block_info_at 5 0) example_tx [1] [40, 41]
       ([], \<lparr>transactions_hash_seen = {}, public_keys_seen = {}\<rparr>, [])
     = Inr (success,
            [\<lparr>outputType = Key, transactionPublicKey = 1, outputInTransaction = 1,
              globalOutputIndex = 41, amount = 20, detail = KeyDetail 104 301\<rparr>],
            \<lparr>transactions_hash_seen = {7}, public_keys_seen = {104}\<rparr>, [])"
    by (simp add: createTransfers_eval)
  have c4: "41 = [40, 41 :: u32] ! unat (1 :: u32)"
    using createTransfers_global_output_index [THEN conjunct1, rule_format, OF h4]
    by (auto simp: example_env_def block_info_at_def)
  have c1: "createTransfers example_env example_account (block_info_at 5 0) example_tx ([0] @ 2 # [1])
       [40, 41] ([], \<lparr>transactions_hash_seen = {}, public_keys_seen = {}\<rparr>, [])
     = Inr (argument_out_of_domain,
            [\<lparr>outputType = Key, transactionPublicKey = 1, outputInTransaction = 0,
              globalOutputIndex = 40, amount = 10, detail = KeyDetail 103 300\<rparr>],
            \<lparr>transactions_hash_seen = {}, public_keys_seen = {}\<rparr>, [])"
    using createTransfers_global_output_index
      [THEN conjunct2, THEN conjunct1, rule_format, OF conjI [OF h1 h2], where post = "[1]"]
    by simp
  from h1 h2 h3 h4 c4 c1 show ?thesis by simp
qed

text \<open>
  C10. When the transaction's hash is already in \<^verbatim>\<open>transactions_hash_seen\<close>, a returning
  call of \<^verbatim>\<open>createTransfers\<close> logs nothing and leaves the registry as it is; it returns
  success exactly when every owned index is below the output count (and
  \<^verbatim>\<open>argument_out_of_domain\<close> otherwise), and on success it has appended one transfer
  for every owned Key or Multisignature output, in order, whatever keys
  \<^verbatim>\<open>public_keys_seen\<close> holds: the transaction is never dropped for a duplicate key.
\<close>

theorem createTransfers_seen_hash_never_dropped:
  assumes seen: "getTransactionHash tx \<in> transactions_hash_seen reg"
    and call: "createTransfers env account blockInfo tx outputs globalIdxs (ts, reg, lg)
                 = Inr (ec, ts', reg', lg')"
  shows "lg' = lg \<and> reg' = reg \<and>
         (ec = success \<longleftrightarrow> (\<forall>idx\<in>set outputs. unat idx < getOutputCount tx)) \<and>
         (ec \<noteq> success \<longrightarrow> ec = argument_out_of_domain) \<and>
         (ec = success \<longrightarrow>
            (\<exists>new. ts' = ts @ new \<and>
               map outputInTransaction new = filter (addressable tx) outputs))"
  using call
proof (cases rule: createTransfers_Inr_cases)
  case (completed st)
  note A = createTransfers_loop_Continue [OF completed(1)]
  from A seen have tk: "temp_keys st = []" by simp
  have "reg' = reg" unfolding completed(5) tk using seen by (simp add: insert_absorb)
  moreover have "lg' = lg" using A completed(4) by simp
  moreover from A obtain new where "transfers st = ts @ new"
    "map outputInTransaction new = filter (addressable tx) outputs" by auto
  ultimately show ?thesis using completed(2,3) A by auto
next
  case (returned st)
  note R = createTransfers_loop_Return_facts [OF returned(1)]
  from R(2) seen have ne: "ec \<noteq> success" by blast
  with R(1) have aod: "ec = argument_out_of_domain" by simp
  from R(3) [OF aod] returned show ?thesis using ne aod by (auto simp: not_less)
qed

theorem createTransfers_seen_hash_never_dropped_witness:
  "createTransfers example_env example_account (block_info_at 0xFFFFFFFF 0) example_tx [0, 1] []
       ([], \<lparr>transactions_hash_seen = {}, public_keys_seen = {}\<rparr>, [])
     = Inr (success,
            [\<lparr>outputType = Key, transactionPublicKey = 1, outputInTransaction = 0,
              globalOutputIndex = 0xFFFFFFFF, amount = 10, detail = KeyDetail 103 300\<rparr>,
             \<lparr>outputType = Key, transactionPublicKey = 1, outputInTransaction = 1,
              globalOutputIndex = 0xFFFFFFFF, amount = 20, detail = KeyDetail 104 301\<rparr>],
            \<lparr>transactions_hash_seen = {7}, public_keys_seen = {103, 104}\<rparr>, []) \<and>
   getTransactionHash example_tx
     \<in> transactions_hash_seen \<lparr>transactions_hash_seen = {7}, public_keys_seen = {103, 104}\<rparr> \<and>
   createTransfers example_env example_account (block_info_at 5 0) example_tx [0, 1] [40, 41]
       ([], \<lparr>transactions_hash_seen = {7}, public_keys_seen = {103, 104}\<rparr>, [])
     = Inr (success,
            [\<lparr>outputType = Key, transactionPublicKey = 1, outputInTransaction = 0,
              globalOutputIndex = 40, amount = 10, detail = KeyDetail 103 300\<rparr>,
             \<lparr>outputType = Key, transactionPublicKey = 1, outputInTransaction = 1,
              globalOutputIndex = 41, amount = 20, detail = KeyDetail 104 301\<rparr>],
            \<lparr>transactions_hash_seen = {7}, public_keys_seen = {103, 104}\<rparr>, []) \<and>
   unat (0 :: u32) < getOutputCount example_tx \<and>
   unat (1 :: u32) < getOutputCount example_tx"
proof -
  have h0: "createTransfers example_env example_account (block_info_at 0xFFFFFFFF 0) example_tx [0, 1] []
       ([], \<lparr>transactions_hash_seen = {}, public_keys_seen = {}\<rparr>, [])
     = Inr (success,
            [\<lparr>outputType = Key, transactionPublicKey = 1, outputInTransaction = 0,
              globalOutputIndex = 0xFFFFFFFF, amount = 10, detail = KeyDetail 103 300\<rparr>,
             \<lparr>outputType = Key, transactionPublicKey = 1, outputInTransaction = 1,
              globalOutputIndex = 0xFFFFFFFF, amount = 20, detail = KeyDetail 104 301\<rparr>],
            \<lparr>transactions_hash_seen = {7}, public_keys_seen = {103, 104}\<rparr>, [])"
    by (simp add: createTransfers_eval)
  have h1: "getTransactionHash example_tx
     \<in> transactions_hash_seen \<lparr>transactions_hash_seen = {7}, public_keys_seen = {103, 104}\<rparr>"
    by (simp add: example_tx_def)
  have h2: "createTransfers example_env example_account (block_info_at 5 0) example_tx [0, 1] [40, 41]
       ([], \<lparr>transactions_hash_seen = {7}, public_keys_seen = {103, 104}\<rparr>, [])
     = Inr (success,
            [\<lparr>outputType = Key, transactionPublicKey = 1, outputInTransaction = 0,
              globalOutputIndex = 40, amount = 10, detail = KeyDetail 103 300\<rparr>,
             \<lparr>outputType = Key, transactionPublicKey = 1, outputInTransaction = 1,
              globalOutputIndex = 41, amount = 20, detail = KeyDetail 104 301\<rparr>],
            \<lparr>transactions_hash_seen = {7}, public_keys_seen = {103, 104}\<rparr>, [])"
    by (simp add: createTransfers_eval)
  from createTransfers_seen_hash_never_dropped [OF h1 h2]
  have "\<forall>idx\<in>set [0, 1 :: u32]. unat idx < getOutputCount example_tx" by blast
  then have "unat (0 :: u32) < getOutputCount example_tx \<and>
             unat (1 :: u32) < getOutputCount example_tx"
    by (metis list.set_intros(1) list.set_intros(2))
  with h0 h1 h2 show ?thesis by blast
qed

subsection \<open>The scanner, the consumer and the batch pipeline: C2, C3, C4, C6, C7, C8\<close>

text \<open>
  C3. The scanner keeps a running key index, starting at 0: a Key output advances it by
  one, a Multisignature output by one per key of its list, any other output not at all.
  The calls of \<^verbatim>\<open>underive_public_key\<close> it makes on a transaction are, output by output
  in order: for a Key output at position \<open>i\<close>, one call with the running key index
  reached before \<open>i\<close> and the output's key; for a Multisignature output at position
  \<open>i\<close>, one call per key of its list, each with the position \<open>i\<close> itself; none for
  another output. A spend key that one of these tests finds among the watched ones gets
  the position \<open>i\<close> appended to its list.
\<close>

theorem findMyOutputs_key_index_arguments:
  "fst (findMyOutputs_loop env derivation spendKeys tx (0, st))
     = running_key_index tx (getOutputCount tx) \<and>
   underive_calls (snd (findMyOutputs_loop env derivation spendKeys tx (0, st)))
     = underive_calls st @
       map (\<lambda>(i, passed, k). (derivation, passed, k)) (expected_checks tx (getOutputCount tx)) \<and>
   found (snd (findMyOutputs_loop env derivation spendKeys tx (0, st)))
     = fold (record_hit env derivation spendKeys) (expected_checks tx (getOutputCount tx)) (found st) \<and>
   underive_calls (findMyOutputs env tx viewSecret spendKeys st)
     = underive_calls st @
       (case generate_key_derivation env (getTransactionPublicKey tx) viewSecret of
          None \<Rightarrow> []
        | Some D \<Rightarrow> map (\<lambda>(i, passed, k). (D, passed, k)) (expected_checks tx (getOutputCount tx)))"
  using findMyOutputs_fold [of env _ spendKeys tx "getOutputCount tx" st]
  by (simp add: findMyOutputs_loop_def findMyOutputs_def split: option.splits)

text \<open>
  An instance: three Multisignature keys at position 0 are tested with index 0, the Key
  output at position 2 with the running index 3, the Multisignature key at position 3
  with index 3 again, and the last Key output with the running index 5.
\<close>

lemma findMyOutputs_example:
  "findMyOutputs example_env
     \<lparr>getTransactionPublicKey = 1, getTransactionHash = 8,
      transactionOutputs = [MultisignatureOutput 5 [11, 12, 13] 2, InvalidOutput, KeyOutput 6 106,
                            MultisignatureOutput 5 [106] 1, KeyOutput 6 16]\<rparr> 2 {100}
     \<lparr>found = [], underive_calls = []\<rparr>
   = \<lparr>found = [(100, [2, 3])],
      underive_calls = [(3, 0, 11), (3, 0, 12), (3, 0, 13), (3, 3, 106), (3, 3, 106), (3, 5, 16)]\<rparr>"
  by code_simp

text \<open>
  C7. A new consumer reports the synchronization start (max, max). After any sequence of
  \<^verbatim>\<open>addSubscription\<close> and \<^verbatim>\<open>removeSubscription\<close> calls, \<^verbatim>\<open>getSyncStart\<close> is
  (max, max) when no subscription is stored, and otherwise its height is the least height
  and its timestamp the least timestamp among the stored subscriptions' starts.
\<close>

theorem getSyncStart_componentwise_minimum:
  "getSyncStart (new_TransfersConsumer viewSecret)
     = \<lparr>ss_timestamp = 0xFFFFFFFFFFFFFFFF, ss_height = 0xFFFFFFFFFFFFFFFF\<rparr> \<and>
   (m_subscriptions (apply_calls (new_TransfersConsumer viewSecret) calls) = [] \<longrightarrow>
      getSyncStart (apply_calls (new_TransfersConsumer viewSecret) calls)
        = \<lparr>ss_timestamp = 0xFFFFFFFFFFFFFFFF, ss_height = 0xFFFFFFFFFFFFFFFF\<rparr>) \<and>
   (m_subscriptions (apply_calls (new_TransfersConsumer viewSecret) calls) \<noteq> [] \<longrightarrow>
      ss_height (getSyncStart (apply_calls (new_TransfersConsumer viewSecret) calls))
        = Min (start_heights (apply_calls (new_TransfersConsumer viewSecret) calls)) \<and>
      ss_timestamp (getSyncStart (apply_calls (new_TransfersConsumer viewSecret) calls))
        = Min (start_timestamps (apply_calls (new_TransfersConsumer viewSecret) calls)))"
proof -
  have m: "(- 1 :: u64) = 0xFFFFFFFFFFFFFFFF" by simp
  have "getSyncStart (new_TransfersConsumer viewSecret) = \<lparr>ss_timestamp = - 1, ss_height = - 1\<rparr>"
    by (simp add: getSyncStart_def new_TransfersConsumer_def updateSyncStart_def)
  then show ?thesis
    using sync_start_current_value
      [OF sync_start_current_calls [OF sync_start_current_new, of viewSecret calls]]
    unfolding getSyncStart_def m by blast
qed

theorem getSyncStart_componentwise_minimum_witness:
  "m_subscriptions (apply_calls (new_TransfersConsumer 2) example_calls) \<noteq> [] \<and>
   getSyncStart (apply_calls (new_TransfersConsumer 2) example_calls)
     = \<lparr>ss_timestamp = 1000, ss_height = 50\<rparr> \<and>
   Min (start_heights (apply_calls (new_TransfersConsumer 2) example_calls)) = 50 \<and>
   Min (start_timestamps (apply_calls (new_TransfersConsumer 2) example_calls)) = 1000 \<and>
   m_subscriptions (apply_calls (new_TransfersConsumer 2)
      (example_calls @ [RemoveSubscription \<lparr>spendPublicKey = 100, viewPublicKey = 200\<rparr>,
                        RemoveSubscription \<lparr>spendPublicKey = 110, viewPublicKey = 200\<rparr>])) = [] \<and>
   getSyncStart (apply_calls (new_TransfersConsumer 2)
      (example_calls @ [RemoveSubscription \<lparr>spendPublicKey = 100, viewPublicKey = 200\<rparr>,
                        RemoveSubscription \<lparr>spendPublicKey = 110, viewPublicKey = 200\<rparr>]))
     = \<lparr>ss_timestamp = 0xFFFFFFFFFFFFFFFF, ss_height = 0xFFFFFFFFFFFFFFFF\<rparr>"
proof -
  have h1: "m_subscriptions (apply_calls (new_TransfersConsumer 2) example_calls) \<noteq> []"
    by (simp add: subscription_eval)
  have v: "getSyncStart (apply_calls (new_TransfersConsumer 2) example_calls)
     = \<lparr>ss_timestamp = 1000, ss_height = 50\<rparr>"
    by (simp add: subscription_eval)
  have h2: "m_subscriptions (apply_calls (new_TransfersConsumer 2)
      (example_calls @ [RemoveSubscription \<lparr>spendPublicKey = 100, viewPublicKey = 200\<rparr>,
                        RemoveSubscription \<lparr>spendPublicKey = 110, viewPublicKey = 200\<rparr>])) = []"
    by (simp add: subscription_eval)
  from getSyncStart_componentwise_minimum [of 2 example_calls] h1 v
  have "Min (start_heights (apply_calls (new_TransfersConsumer 2) example_calls)) = 50 \<and>
        Min (start_timestamps (apply_calls (new_TransfersConsumer 2) example_calls)) = 1000"
    by simp
  moreover from getSyncStart_componentwise_minimum [of 2 "example_calls @ [RemoveSubscription \<lparr>spendPublicKey = 100, viewPublicKey = 200\<rparr>,
                        RemoveSubscription \<lparr>spendPublicKey = 110, viewPublicKey = 200\<rparr>]"] h2
  have "getSyncStart (apply_calls (new_TransfersConsumer 2)
      (example_calls @ [RemoveSubscription \<lparr>spendPublicKey = 100, viewPublicKey = 200\<rparr>,
                        RemoveSubscription \<lparr>spendPublicKey = 110, viewPublicKey = 200\<rparr>]))
     = \<lparr>ss_timestamp = 0xFFFFFFFFFFFFFFFF, ss_height = 0xFFFFFFFFFFFFFFFF\<rparr>"
    by blast
  ultimately show ?thesis using h1 v h2 by blast
qed

text \<open>
  C8. The number of processing threads is the reported hardware parallelism \<open>p\<close> when
  that is at least 1, and 2 when it is 0; so it is \<open>max 2 p\<close> exactly when
  \<open>p \<noteq> 1\<close>. That many threads are there at the join.
\<close>

theorem worker_count_value:
  "worker_count env = (if hardware_concurrency env = 0 then 2 else unat (hardware_concurrency env)) \<and>
   (worker_count env = max 2 (unat (hardware_concurrency env)) \<longleftrightarrow> hardware_concurrency env \<noteq> 1) \<and>
   (processing_phase env schedule blocks startHeight count (c, reg, lg) = Inr ph \<longrightarrow>
      length (workers ph) = worker_count env)"
proof -
  have a: "worker_count env = (if hardware_concurrency env = 0 then 2 else unat (hardware_concurrency env))"
    by (simp add: worker_count_def Let_def unat_eq_0)
  have "unat (hardware_concurrency env) = 1 \<longleftrightarrow> hardware_concurrency env = 1"
    using word_unat_eq_iff [of "hardware_concurrency env" 1] by simp
  moreover have "unat (hardware_concurrency env) = 0 \<longleftrightarrow> hardware_concurrency env = 0"
    by (simp add: unat_eq_0)
  ultimately have "worker_count env = max 2 (unat (hardware_concurrency env)) \<longleftrightarrow> hardware_concurrency env \<noteq> 1"
    using a by (cases "hardware_concurrency env = 0") (simp_all add: max_def, arith)
  with a show ?thesis using processing_phase_workers by blast
qed

theorem worker_count_value_witness:
  "processing_phase example_env [] (example_blocks 13) 10 2
       (example_consumer_told [] [], example_registry, []) = Inr example_failed_phase \<and>
   length (workers example_failed_phase) = worker_count example_env \<and>
   worker_count example_env = 2"
proof -
  have h1: "processing_phase example_env [] (example_blocks 13) 10 2
       (example_consumer_told [] [], example_registry, []) = Inr example_failed_phase"
    by code_simp
  from worker_count_value [of example_env "[]" "example_blocks 13" 10 2 "example_consumer_told [] []"
      example_registry "[]" example_failed_phase] h1
  have "length (workers example_failed_phase) = worker_count example_env" by blast
  then show ?thesis using h1 by (simp add: example_failed_phase_def)
qed

text \<open>
  C8, the specification's \<open>max 2 p\<close>: with a reported parallelism of 1 there is one
  processing thread, not two.
\<close>

theorem worker_count_not_max_counterexample:
  "worker_count (example_env\<lparr>hardware_concurrency := 1\<rparr>)
     \<noteq> max 2 (unat (hardware_concurrency (example_env\<lparr>hardware_concurrency := 1\<rparr>)))"
  by (simp add: worker_count_def example_env_def)

text \<open>
  C6. For a transaction the subscription's container already knows: if the known height is
  the unconfirmed sentinel and the incoming height is not, \<^verbatim>\<open>processOutputs\<close> calls
  \<^verbatim>\<open>markTransactionConfirmed\<close> and reports an update; otherwise it calls nothing, and
  unless the heights are equal the assertion fails (when assertions are compiled in). In
  particular a known confirmed transaction met with the unconfirmed height changes
  nothing, and no call for a known transaction ever makes an \<^verbatim>\<open>addTransaction\<close>.
\<close>

theorem processOutputs_known_transaction:
  assumes known: "getTransactionInformation env sub (getTransactionHash tx) = Some known"
  shows "(blockHeight known = WALLET_UNCONFIRMED_TRANSACTION_HEIGHT env \<and>
          height blockInfo \<noteq> WALLET_UNCONFIRMED_TRANSACTION_HEIGHT env \<longrightarrow>
            processOutputs env blockInfo sub tx ts idxs =
              Inr (True, True,
                   sub\<lparr>history := history sub @
                         [MarkTransactionConfirmed blockInfo (getTransactionHash tx) idxs]\<rparr>)) \<and>
         (\<not> (blockHeight known = WALLET_UNCONFIRMED_TRANSACTION_HEIGHT env \<and>
             height blockInfo \<noteq> WALLET_UNCONFIRMED_TRANSACTION_HEIGHT env) \<longrightarrow>
            processOutputs env blockInfo sub tx ts idxs =
              (if NDEBUG env \<or> blockHeight known = height blockInfo
               then Inr (True, False, sub) else Inl AssertionFailed)) \<and>
         (blockHeight known \<noteq> WALLET_UNCONFIRMED_TRANSACTION_HEIGHT env \<and>
          height blockInfo = WALLET_UNCONFIRMED_TRANSACTION_HEIGHT env \<longrightarrow>
            processOutputs env blockInfo sub tx ts idxs =
              (if NDEBUG env then Inr (True, False, sub) else Inl AssertionFailed)) \<and>
         (\<forall>cn up sub'. processOutputs env blockInfo sub tx ts idxs = Inr (cn, up, sub') \<longrightarrow>
            cn \<and> (history sub' = history sub \<or>
                  history sub' = history sub @
                    [MarkTransactionConfirmed blockInfo (getTransactionHash tx) idxs]))"
  using known by (auto simp: processOutputs_def split: if_splits)

theorem processOutputs_known_transaction_witness:
  "getTransactionInformation example_env example_pool_subscription (getTransactionHash example_tx)
     = Some \<lparr>blockHeight = 0xFFFFFFFF\<rparr> \<and>
   blockHeight \<lparr>blockHeight = 0xFFFFFFFF\<rparr> = WALLET_UNCONFIRMED_TRANSACTION_HEIGHT example_env \<and>
   height (block_info_at 200 0) \<noteq> WALLET_UNCONFIRMED_TRANSACTION_HEIGHT example_env \<and>
   processOutputs example_env (block_info_at 200 0) example_pool_subscription example_tx
       example_transfers_a [40, 41, 42]
     = Inr (True, True,
            example_pool_subscription
              \<lparr>history := history example_pool_subscription @
                 [MarkTransactionConfirmed (block_info_at 200 0) (getTransactionHash example_tx)
                    [40, 41, 42]]\<rparr>)"
proof -
  have h: "getTransactionInformation example_env example_pool_subscription (getTransactionHash example_tx)
     = Some \<lparr>blockHeight = 0xFFFFFFFF\<rparr>"
    by (simp add: example_env_def example_pool_subscription_def example_container_def
        example_tx_def block_info_at_def)
  have u: "blockHeight \<lparr>blockHeight = 0xFFFFFFFF\<rparr> = WALLET_UNCONFIRMED_TRANSACTION_HEIGHT example_env"
    "height (block_info_at 200 0) \<noteq> WALLET_UNCONFIRMED_TRANSACTION_HEIGHT example_env"
    by (simp_all add: example_env_def block_info_at_def)
  from processOutputs_known_transaction [OF h, of "block_info_at 200 0" example_transfers_a "[40, 41, 42]"] u h
  show ?thesis by blast
qed

text \<open>
  C2. When \<^verbatim>\<open>onNewBlocks\<close> returns true, whatever the platform's parallelism and
  whatever the interleaving of the threads: what is applied is the accumulated
  preprocessed transactions, sorted to ascend in \<^verbatim>\<open>(height, transactionIndex)\<close> (height
  first, then the index in the block); the stored subscriptions keep their keys
  and order, each subscription's history grows by a suffix, and the
  \<^verbatim>\<open>(height, transactionIndex)\<close> pairs of the \<^verbatim>\<open>addTransaction\<close> calls in that suffix
  are in ascending order.
\<close>

theorem onNewBlocks_add_transaction_order:
  assumes "onNewBlocks env schedule blocks startHeight count (c, reg, lg) = Inr (True, c', reg', lg')"
  shows "(\<exists>ph applied c1.
            processing_phase env schedule blocks startHeight count (c, reg, lg) = Inr ph \<and>
            applied = sort_key apply_order (preprocessedTransactions ph) \<and>
            set applied = set (preprocessedTransactions ph) \<and>
            length applied = length (preprocessedTransactions ph) \<and>
            sorted (map apply_order applied) \<and>
            apply_preprocessed env applied
              (c\<lparr>m_observerEvents := m_observerEvents c @ [OnBlocksAdded (getBlockHashes blocks count)]\<rparr>)
              = Inr c1 \<and>
            c' = forEachSubscription (AdvanceHeight (startHeight + count - 1)) c1) \<and>
         map fst (m_subscriptions c') = map fst (m_subscriptions c) \<and>
         (\<forall>i<length (m_subscriptions c).
            \<exists>evs. history (snd (m_subscriptions c' ! i)) = history (snd (m_subscriptions c ! i)) @ evs \<and>
                  sorted (add_transaction_order evs))"
proof -
  obtain ph where ph: "processing_phase env schedule blocks startHeight count (c, reg, lg) = Inr ph"
    using assms
    by (cases "processing_phase env schedule blocks startHeight count (c, reg, lg)")
       (auto simp: onNewBlocks_def split: if_splits)
  obtain c1 where
    a: "apply_preprocessed env
          (sort_key (\<lambda>t. (height (tx_blockInfo t), transactionIndex (tx_blockInfo t)))
             (preprocessedTransactions ph))
          (c\<lparr>m_observerEvents := m_observerEvents c @ [OnBlocksAdded (getBlockHashes blocks count)]\<rparr>)
        = Inr c1"
    using assms ph
    by (cases "apply_preprocessed env
          (sort_key (\<lambda>t. (height (tx_blockInfo t), transactionIndex (tx_blockInfo t)))
             (preprocessedTransactions ph))
          (c\<lparr>m_observerEvents := m_observerEvents c @ [OnBlocksAdded (getBlockHashes blocks count)]\<rparr>)")
       (auto simp: onNewBlocks_def Let_def split: if_splits)
  have c': "c' = forEachSubscription (AdvanceHeight (startHeight + count - 1)) c1"
    using assms ph a by (auto simp: onNewBlocks_def Let_def split: if_splits)
  have k: "(\<lambda>t. (height (tx_blockInfo t), transactionIndex (tx_blockInfo t))) = apply_order"
    by (simp add: apply_order_def fun_eq_iff)
  have "sorted (map apply_order (sort_key apply_order (preprocessedTransactions ph)))"
    by (rule sorted_sort_key)
  from apply_preprocessed_told [OF this a [unfolded k]]
  have t: "list_all2 (told_in_order (set (map apply_order (sort_key apply_order (preprocessedTransactions ph)))))
             (m_subscriptions c) (m_subscriptions c1)" by simp
  have len: "length (m_subscriptions c1) = length (m_subscriptions c)"
    using t by (simp add: list_all2_lengthD)
  have fsts: "map fst (m_subscriptions c') = map fst (m_subscriptions c)"
  proof (rule nth_equalityI)
    show "length (map fst (m_subscriptions c')) = length (map fst (m_subscriptions c))"
      using len by (simp add: c' forEachSubscription_def)
  next
    fix i assume "i < length (map fst (m_subscriptions c'))"
    then have i: "i < length (m_subscriptions c)" using len by (simp add: c' forEachSubscription_def)
    with t have "told_in_order (set (map apply_order (sort_key apply_order (preprocessedTransactions ph))))
                   (m_subscriptions c ! i) (m_subscriptions c1 ! i)"
      by (simp add: list_all2_nthD)
    then show "map fst (m_subscriptions c') ! i = map fst (m_subscriptions c) ! i"
      using i len by (simp add: c' forEachSubscription_def told_in_order_def)
  qed
  have "\<exists>evs. history (snd (m_subscriptions c' ! i)) = history (snd (m_subscriptions c ! i)) @ evs \<and>
              sorted (add_transaction_order evs)" if i: "i < length (m_subscriptions c)" for i
  proof -
    from t i have "told_in_order (set (map apply_order (sort_key apply_order (preprocessedTransactions ph))))
                   (m_subscriptions c ! i) (m_subscriptions c1 ! i)"
      by (simp add: list_all2_nthD)
    then obtain evs where e: "history (snd (m_subscriptions c1 ! i)) = history (snd (m_subscriptions c ! i)) @ evs"
      "sorted (add_transaction_order evs)" unfolding told_in_order_def by blast
    have "history (snd (m_subscriptions c' ! i))
            = history (snd (m_subscriptions c ! i)) @ (evs @ [AdvanceHeight (startHeight + count - 1)])"
      using i len e(1) by (simp add: c' forEachSubscription_def)
    moreover have "sorted (add_transaction_order (evs @ [AdvanceHeight (startHeight + count - 1)]))"
      using e(2) by (simp add: add_transaction_order_append)
    ultimately show ?thesis by blast
  qed
  moreover have "\<exists>ph applied c1.
            processing_phase env schedule blocks startHeight count (c, reg, lg) = Inr ph \<and>
            applied = sort_key apply_order (preprocessedTransactions ph) \<and>
            set applied = set (preprocessedTransactions ph) \<and>
            length applied = length (preprocessedTransactions ph) \<and>
            sorted (map apply_order applied) \<and>
            apply_preprocessed env applied
              (c\<lparr>m_observerEvents := m_observerEvents c @ [OnBlocksAdded (getBlockHashes blocks count)]\<rparr>)
              = Inr c1 \<and>
            c' = forEachSubscription (AdvanceHeight (startHeight + count - 1)) c1"
  proof (intro exI conjI)
    show "processing_phase env schedule blocks startHeight count (c, reg, lg) = Inr ph"
      by (rule ph)
    show "sort_key apply_order (preprocessedTransactions ph)
            = sort_key apply_order (preprocessedTransactions ph)" by (rule refl)
    show "set (sort_key apply_order (preprocessedTransactions ph))
            = set (preprocessedTransactions ph)" by simp
    show "length (sort_key apply_order (preprocessedTransactions ph))
            = length (preprocessedTransactions ph)" by simp
    show "sorted (map apply_order (sort_key apply_order (preprocessedTransactions ph)))"
      by (rule sorted_sort_key)
    show "apply_preprocessed env (sort_key apply_order (preprocessedTransactions ph))
            (c\<lparr>m_observerEvents := m_observerEvents c @ [OnBlocksAdded (getBlockHashes blocks count)]\<rparr>)
            = Inr c1" using a unfolding k .
    show "c' = forEachSubscription (AdvanceHeight (startHeight + count - 1)) c1" by (rule c')
  qed
  ultimately show ?thesis using fsts by blast
qed

theorem onNewBlocks_add_transaction_order_witness:
  "onNewBlocks example_env [0, 1, 1, 1, 0, 0] (example_blocks 8) 10 2
       (example_consumer_told [] [], example_registry, [])
     = Inr (True,
            example_consumer_told
              [AddTransaction \<lparr>height = 10, timestamp = 50, transactionIndex = 0\<rparr> example_tx
                 example_transfers_a,
               AddTransaction \<lparr>height = 11, timestamp = 60, transactionIndex = 0\<rparr> (example_tx_b 8)
                 example_transfers_b,
               AdvanceHeight 11]
              [OnBlocksAdded [1000, 1001], OnTransactionUpdated 7 [100], OnTransactionUpdated 8 [100]],
            \<lparr>transactions_hash_seen = {7, 8}, public_keys_seen = {103, 104, 107}\<rparr>, []) \<and>
   sorted (add_transaction_order
      [AddTransaction \<lparr>height = 10, timestamp = 50, transactionIndex = 0\<rparr> example_tx
         example_transfers_a,
       AddTransaction \<lparr>height = 11, timestamp = 60, transactionIndex = 0\<rparr> (example_tx_b 8)
         example_transfers_b,
       AdvanceHeight 11])"
proof -
  have h: "onNewBlocks example_env [0, 1, 1, 1, 0, 0] (example_blocks 8) 10 2
       (example_consumer_told [] [], example_registry, [])
     = Inr (True,
            example_consumer_told
              [AddTransaction \<lparr>height = 10, timestamp = 50, transactionIndex = 0\<rparr> example_tx
                 example_transfers_a,
               AddTransaction \<lparr>height = 11, timestamp = 60, transactionIndex = 0\<rparr> (example_tx_b 8)
                 example_transfers_b,
               AdvanceHeight 11]
              [OnBlocksAdded [1000, 1001], OnTransactionUpdated 7 [100], OnTransactionUpdated 8 [100]],
            \<lparr>transactions_hash_seen = {7, 8}, public_keys_seen = {103, 104, 107}\<rparr>, [])"
    by code_simp
  from onNewBlocks_add_transaction_order [OF h] have "sorted (add_transaction_order
      [AddTransaction \<lparr>height = 10, timestamp = 50, transactionIndex = 0\<rparr> example_tx
         example_transfers_a,
       AddTransaction \<lparr>height = 11, timestamp = 60, transactionIndex = 0\<rparr> (example_tx_b 8)
         example_transfers_b,
       AdvanceHeight 11])"
    by (simp add: example_consumer_told_def)
  with h show ?thesis by (rule conjI)
qed

text \<open>
  C4. When some call of \<^verbatim>\<open>preprocessOutputs\<close> in a batch (whose \<^verbatim>\<open>count\<close> blocks
  are all inside the caller's array) has returned an error, \<^verbatim>\<open>onNewBlocks\<close> returns
  false; an error code \<open>e\<close> that some preprocessing returned, the one of the first
  thread in thread order that returned an error, is passed with \<^verbatim>\<open>startHeight\<close> to
  \<^verbatim>\<open>onError\<close> of every subscription; and nothing else of the consumer changes: no
  other call reaches a subscription and no observer is notified.
\<close>

theorem onNewBlocks_error_aborts_batch:
  assumes ph: "processing_phase env schedule blocks startHeight count (c, reg, lg) = Inr ph"
    and err: "\<exists>r\<in>set (preprocess_results ph). snd r \<noteq> success"
    and inside: "unat count \<le> length blocks"
  shows "\<exists>e i. e \<noteq> success \<and> i < length (workers ph) \<and> workers ph ! i = Finished e \<and>
           (\<forall>j<i. workers ph ! j = Finished success) \<and>
           (\<exists>item. (item, e) \<in> set (preprocess_results ph)) \<and>
           onNewBlocks env schedule blocks startHeight count (c, reg, lg) =
             Inr (False,
                  c\<lparr>m_subscriptions :=
                      map (\<lambda>kv. (fst kv, (snd kv)\<lparr>history := history (snd kv) @ [OnError e startHeight]\<rparr>))
                        (m_subscriptions c)\<rparr>,
                  seen ph, logger ph)"
proof -
  have nonempty: "count \<noteq> 0"
  proof
    assume "count = 0"
    with ph have "preprocess_results ph = []" by (simp add: processing_phase_no_blocks)
    with err show False by simp
  qed
  note rec = processing_phase_failures_recorded [OF ph]
  from err obtain item ec where r: "(item, ec) \<in> set (preprocess_results ph)" "ec \<noteq> success"
    by auto
  with rec obtain k where k: "k < length (workers ph)" "workers ph ! k = Finished ec"
    unfolding failures_recorded_def by blast
  then have "Finished ec \<in> set (workers ph)" by (auto simp: in_set_conv_nth)
  have ne: "join_workers success (map get_future (workers ph)) \<noteq> success"
  proof
    assume "join_workers success (map get_future (workers ph)) = success"
    from join_workers_success [OF this] \<open>Finished ec \<in> set (workers ph)\<close>
    have "worker_result (Finished ec) = success" by blast
    with r(2) show False by (simp add: worker_result_def)
  qed
  from join_workers_first [OF ne] obtain i where
    i: "i < length (workers ph)"
       "worker_result (workers ph ! i) = join_workers success (map get_future (workers ph))"
       "\<forall>j<i. worker_result (workers ph ! j) = success" by blast
  define e where "e = join_workers success (map get_future (workers ph))"
  have fin: "workers ph ! i = Finished e"
    using i(2) ne unfolding e_def by (auto simp: worker_result_def split: worker.splits)
  have before: "\<forall>j<i. workers ph ! j = Finished success"
  proof (intro allI impI)
    fix j assume j: "j < i"
    with i(1) have "j < length (workers ph)" by simp
    from processing_phase_all_finished [OF ph this] obtain x where "workers ph ! j = Finished x" ..
    with i(3) j show "workers ph ! j = Finished success" by (auto simp: worker_result_def)
  qed
  from rec i(1) fin ne have item: "\<exists>item. (item, e) \<in> set (preprocess_results ph)"
    unfolding failures_recorded_def e_def by blast
  have "onNewBlocks env schedule blocks startHeight count (c, reg, lg) =
          Inr (False, forEachSubscription (OnError e startHeight) c, seen ph, logger ph)"
    using ph ne nonempty inside unfolding e_def by (simp add: onNewBlocks_def Let_def)
  then show ?thesis using ne i(1) fin before item unfolding e_def forEachSubscription_def by blast
qed

theorem onNewBlocks_error_aborts_batch_witness:
  "processing_phase example_env [] (example_blocks 13) 10 2
       (example_consumer_told [] [], example_registry, []) = Inr example_failed_phase \<and>
   (\<exists>r\<in>set (preprocess_results example_failed_phase). snd r \<noteq> success) \<and>
   unat (2 :: u32) \<le> length (example_blocks 13) \<and>
   (\<exists>e i. e \<noteq> success \<and> i < length (workers example_failed_phase) \<and>
      workers example_failed_phase ! i = Finished e \<and>
      (\<forall>j<i. workers example_failed_phase ! j = Finished success) \<and>
      (\<exists>item. (item, e) \<in> set (preprocess_results example_failed_phase)) \<and>
      onNewBlocks example_env [] (example_blocks 13) 10 2
          (example_consumer_told [] [], example_registry, []) =
        Inr (False,
             (example_consumer_told [] [])
               \<lparr>m_subscriptions :=
                  map (\<lambda>kv. (fst kv, (snd kv)\<lparr>history := history (snd kv) @ [OnError e 10]\<rparr>))
                    (m_subscriptions (example_consumer_told [] []))\<rparr>,
             seen example_failed_phase, logger example_failed_phase)) \<and>
   onNewBlocks example_env [] (example_blocks 13) 10 2
       (example_consumer_told [] [], example_registry, [])
     = Inr (False, example_consumer_told [OnError (node_error 1) 10] [],
            \<lparr>transactions_hash_seen = {7}, public_keys_seen = {103, 104}\<rparr>, [])"
proof -
  have h1: "processing_phase example_env [] (example_blocks 13) 10 2
       (example_consumer_told [] [], example_registry, []) = Inr example_failed_phase"
    by code_simp
  have h2: "\<exists>r\<in>set (preprocess_results example_failed_phase). snd r \<noteq> success"
    by (simp add: example_failed_phase_def)
  have h4: "unat (2 :: u32) \<le> length (example_blocks 13)" by (simp add: example_blocks_def)
  have h5: "onNewBlocks example_env [] (example_blocks 13) 10 2
       (example_consumer_told [] [], example_registry, [])
     = Inr (False, example_consumer_told [OnError (node_error 1) 10] [],
            \<lparr>transactions_hash_seen = {7}, public_keys_seen = {103, 104}\<rparr>, [])"
    by code_simp
  from onNewBlocks_error_aborts_batch [OF h1 h2 h4] h1 h2 h4 h5 show ?thesis by blast
qed


end
